theory Spec2Isabelle
  imports Complex_Main
begin

section \<open>The mobile replay segment scheduler (\<open>MobileReplayer\<close>)\<close>

text \<open>
  The development embeds the segment lookup \<open>findSegmentIndex\<close> and the class
  \<open>MobileReplayer\<close>. Timestamps, durations and offsets are integral milliseconds
  (\<open>int\<close>); the playback speed and a handle's seek position in seconds are
  \<open>real\<close>; a JavaScript \<open>undefined\<close> or \<open>null\<close> is \<open>None\<close>; a raised
  \<open>TypeError\<close> is the left injection of a sum. The DOM (the wrapper element, the
  mount point) and media decoding are outside the model: a video element is the record
  of the attributes the player writes.
\<close>

subsection \<open>Data\<close>

record MobileAttachment =
  duration :: int
  timestamp :: int
  uri :: string

text \<open>
  The two ways a \<open>TypeError\<close> is raised in this code: destructuring \<open>undefined\<close>
  (\<open>const [ts, index] = trackList[mid]\<close>) and reading a property of \<open>undefined\<close>
  (\<open>segment.duration\<close>, \<open>resultSegment.timestamp\<close>).
\<close>

datatype error = NotIterable | UndefinedProperty

text \<open>Array indexing \<open>xs[i]\<close> with an integer index: \<open>undefined\<close> outside the array.\<close>

definition js_nth :: "'a list \<Rightarrow> int \<Rightarrow> 'a option" where
  "js_nth xs i = (if 0 \<le> i \<and> i < int (length xs) then Some (xs ! nat i) else None)"

subsection \<open>The segment lookup\<close>

text \<open>
  The test \<open>targetTimestamp >= ts && targetTimestamp <= (ts + segment.duration)\<close>:
  the right operand is evaluated only when the left one holds, and reading
  \<open>segment.duration\<close> of a missing segment raises.
\<close>

definition segmentMatch :: "MobileAttachment option \<Rightarrow> int \<Rightarrow> int \<Rightarrow> error + bool" where
  "segmentMatch segment ts targetTimestamp =
     (if targetTimestamp \<ge> ts then
        (case segment of
           None \<Rightarrow> Inl UndefinedProperty
         | Some s \<Rightarrow> Inr (targetTimestamp \<le> ts + duration s))
      else Inr False)"

text \<open>The number of indices in the search interval \<open>[start, end]\<close>.\<close>

definition intervalSize :: "int \<Rightarrow> int \<Rightarrow> nat" where
  "intervalSize start end = nat (end - start + 1)"

function findSegmentIndex ::
  "(int \<times> int) list \<Rightarrow> MobileAttachment list \<Rightarrow> int \<Rightarrow> int \<Rightarrow> int \<Rightarrow> error + int" where
  "findSegmentIndex trackList segments targetTimestamp start end =
     (if start > end then Inr end
      else
        let mid = (start + end) div 2 in
        case js_nth trackList mid of
          None \<Rightarrow> Inl NotIterable
        | Some (ts, index) \<Rightarrow>
            (case segmentMatch (js_nth segments index) ts targetTimestamp of
               Inl e \<Rightarrow> Inl e
             | Inr hit \<Rightarrow>
                 if hit then Inr index
                 else if targetTimestamp > ts then
                   findSegmentIndex trackList segments targetTimestamp (mid + 1) end
                 else
                   findSegmentIndex trackList segments targetTimestamp start (mid - 1)))"
  by pat_completeness auto
termination
  by (relation "measure (\<lambda>(trackList, segments, targetTimestamp, start, end). intervalSize start end)")
     (auto simp: intervalSize_def)

declare findSegmentIndex.simps [simp del]

text \<open>
  The same body as a partial function: a run that never returned would be \<open>None\<close>, so
  that returning is a statement about the function and not a side condition of its
  definition.
\<close>

partial_function (option) findSegmentIndex_partial ::
  "(int \<times> int) list \<Rightarrow> MobileAttachment list \<Rightarrow> int \<Rightarrow> int \<Rightarrow> int \<Rightarrow> (error + int) option" where
  "findSegmentIndex_partial trackList segments targetTimestamp start end =
     (if start > end then Some (Inr end)
      else
        let mid = (start + end) div 2 in
        case js_nth trackList mid of
          None \<Rightarrow> Some (Inl NotIterable)
        | Some (ts, index) \<Rightarrow>
            (case segmentMatch (js_nth segments index) ts targetTimestamp of
               Inl e \<Rightarrow> Some (Inl e)
             | Inr hit \<Rightarrow>
                 if hit then Some (Inr index)
                 else if targetTimestamp > ts then
                   findSegmentIndex_partial trackList segments targetTimestamp (mid + 1) end
                 else
                   findSegmentIndex_partial trackList segments targetTimestamp start (mid - 1)))"

text \<open>The constructor's \<open>attachments.map(({timestamp}, i) => [timestamp, i])\<close>.\<close>

definition mkTrackList :: "MobileAttachment list \<Rightarrow> (int \<times> int) list" where
  "mkTrackList attachments = map (\<lambda>(i, a). (timestamp a, int i)) (enumerate 0 attachments)"


subsection \<open>Well-formed segment lists\<close>

text \<open>
  Segments are sorted ascending by start timestamp; no two of them overlap (the end of an
  earlier one is not after the start of a later one; a zero gap is allowed); a segment
  contains the timestamps of its closed interval \<open>[start, start + duration]\<close>.
\<close>

definition sortedByStart :: "MobileAttachment list \<Rightarrow> bool" where
  "sortedByStart segments = sorted_wrt (\<lambda>a b. timestamp a \<le> timestamp b) segments"

definition nonOverlapping :: "MobileAttachment list \<Rightarrow> bool" where
  "nonOverlapping segments =
     sorted_wrt (\<lambda>a b. timestamp a + duration a \<le> timestamp b) segments"

definition inSegment :: "MobileAttachment \<Rightarrow> int \<Rightarrow> bool" where
  "inSegment segment t = (timestamp segment \<le> t \<and> t \<le> timestamp segment + duration segment)"

text \<open>The three segments of the end-to-end scenario: gaps 1000-1500 and 2500-3000.\<close>

definition exampleSegments :: "MobileAttachment list" where
  "exampleSegments =
     [\<lparr>duration = 1000, timestamp = 0, uri = ''a''\<rparr>,
      \<lparr>duration = 1000, timestamp = 1500, uri = ''b''\<rparr>,
      \<lparr>duration = 500, timestamp = 3000, uri = ''c''\<rparr>]"

subsection \<open>The Virtual Timer\<close>

text \<open>
  Modelled from the spec: the class \<open>Timer\<close> (\<open>sentry/utils/replays/timer\<close>) is
  imported by the player and is not among the sources. Its state is the current elapsed
  virtual time, the running/stopped flag and the pending wake-up requests, each a target
  time with what it wakes up.
\<close>

record 'k Timer =
  time :: int
  running :: bool
  pending :: "(int \<times> 'k) list"

text \<open>Modelled from the spec: a new \<open>Timer\<close> has no elapsed time, is stopped and has
  no pending wake-up.\<close>

definition newTimer :: "'k Timer" where
  "newTimer = \<lparr>time = 0, running = False, pending = []\<rparr>"

text \<open>Modelled from the spec: \<open>start(atOffsetMs)\<close> sets the current time to
  \<open>atOffsetMs\<close> and marks the timer running.\<close>

definition timer_start :: "int \<Rightarrow> 'k Timer \<Rightarrow> 'k Timer" where
  "timer_start atOffsetMs t = t\<lparr>time := atOffsetMs, running := True\<rparr>"

text \<open>Modelled from the spec: \<open>stop(atOffsetMs)\<close> freezes the timer at the given offset
  and marks it stopped; pending wake-ups stay registered. Called without an offset (as
  \<open>handleSegmentEnd\<close> does) it freezes the timer at its current time.\<close>

definition timer_stop :: "int option \<Rightarrow> 'k Timer \<Rightarrow> 'k Timer" where
  "timer_stop atOffsetMs t =
     t\<lparr>time := (case atOffsetMs of None \<Rightarrow> time t | Some ms \<Rightarrow> ms), running := False\<rparr>"

text \<open>Modelled from the spec: \<open>getTime()\<close> returns the current elapsed virtual time.\<close>

definition getTime :: "'k Timer \<Rightarrow> int" where
  "getTime t = time t"

text \<open>Modelled from the spec: \<open>addNotificationAtTime(targetMs, callback)\<close> registers a
  one-shot wake-up.\<close>

definition addNotificationAtTime :: "int \<Rightarrow> 'k \<Rightarrow> 'k Timer \<Rightarrow> 'k Timer" where
  "addNotificationAtTime targetMs callback t = t\<lparr>pending := pending t @ [(targetMs, callback)]\<rparr>"

text \<open>Modelled from the spec: while the timer runs, its time follows real time; the
  passing of \<open>ms\<close> milliseconds is an event of the model.\<close>

definition timer_advance :: "nat \<Rightarrow> 'k Timer \<Rightarrow> 'k Timer" where
  "timer_advance ms t = (if running t then t\<lparr>time := time t + int ms\<rparr> else t)"

text \<open>Modelled from the spec: the \<open>n\<close>-th pending wake-up is due when the timer runs
  and its time has reached the target of the wake-up.\<close>

definition notificationDue :: "'k Timer \<Rightarrow> nat \<Rightarrow> bool" where
  "notificationDue t n = (running t \<and> n < length (pending t) \<and> fst (pending t ! n) \<le> time t)"

text \<open>Modelled from the spec: a wake-up fires at most once; when it fires it is removed
  from the pending ones.\<close>

definition removeNotification :: "nat \<Rightarrow> 'k Timer \<Rightarrow> 'k Timer" where
  "removeNotification n t = t\<lparr>pending := take n (pending t) @ drop (Suc n) (pending t)\<rparr>"

subsection \<open>The state of the player\<close>

text \<open>
  A video element: the attributes the player writes. \<open>display\<close> is \<open>style.display\<close>
  (\<open>'none'\<close> or \<open>'block'\<close>), \<open>currentTime\<close> the seek position in seconds,
  \<open>paused\<close> is false from \<open>play()\<close> to \<open>pause()\<close>.
\<close>

datatype Display = DisplayNone | DisplayBlock

record HTMLVideoElement =
  src :: string
  display :: Display
  playbackRate :: real
  currentTime :: real
  paused :: bool

text \<open>
  An \<open>async\<close> function runs synchronously up to its first \<open>await\<close> of a promise that
  is not yet settled. The only such promise in this class is the one of \<open>loadSegment\<close>
  that the timer resolves. A call therefore ends resolved with a value, rejected with the
  error raised in its body, or pending; the frame that is pending sits in the timer's
  wake-up list, with the index and offset it was called with and the caller that awaits
  it. Continuations of already settled promises are run within the operation that settles
  them.
\<close>

datatype 'a promise = Resolved 'a | Pending | Rejected error

text \<open>Who holds the promise of \<open>loadSegmentAtTime\<close>: \<open>playSegmentAtTime\<close> (which plays
  the loaded video) or \<open>pause\<close> (which drops it).\<close>

datatype caller = FromPlaySegmentAtTime | FromPause

text \<open>Who awaits the promise of \<open>loadSegment\<close>: the constructor (which drops it),
  \<open>playSegmentAtIndex\<close>, \<open>loadSegmentAtTime\<close> for the previous segment (with its
  \<open>videoOffsetMs\<close> and \<open>previousSegmentIndex\<close>), or \<open>loadSegmentAtTime\<close> in its
  final \<open>return\<close>.\<close>

datatype awaiting =
    Constructor
  | PlaySegmentAtIndex
  | LoadSegmentAtTime_previous int int caller
  | LoadSegmentAtTime_return caller

datatype suspended = LoadSegment int int awaiting

text \<open>The calls of the two callbacks, in order: \<open>onFinished()\<close> and \<open>onLoaded(event)\<close>
  of the video at an index.\<close>

datatype callback = OnFinished | OnLoaded int

record MobileReplayer =
  attachments :: "MobileAttachment list"
  callbacks :: "callback list"
  currentIndex :: "int option"
  playbackSpeed :: real
  startTimestamp :: int
  timer :: "suspended Timer"
  trackList :: "(int \<times> int) list"
  videos :: "HTMLVideoElement list"
  console :: "string list"
  unhandledRejections :: "error list"

text \<open>A promise nobody awaits: if it is rejected, the error is an unhandled rejection.\<close>

definition floating :: "MobileReplayer \<times> 'a promise \<Rightarrow> MobileReplayer" where
  "floating sp =
     (case sp of
        (self, Rejected e) \<Rightarrow> self\<lparr>unhandledRejections := unhandledRejections self @ [e]\<rparr>
      | (self, _) \<Rightarrow> self)"

subsection \<open>The methods of the player\<close>

definition createVideo :: "real \<Rightarrow> MobileAttachment \<Rightarrow> HTMLVideoElement" where
  "createVideo speed segmentData =
     \<lparr>src = uri segmentData, display = DisplayNone, playbackRate = speed,
      currentTime = 0, paused = True\<rparr>"

definition getSegment :: "MobileReplayer \<Rightarrow> int option \<Rightarrow> MobileAttachment option" where
  "getSegment self index =
     (case index of None \<Rightarrow> None | Some i \<Rightarrow> js_nth (attachments self) i)"

text \<open>A video element is referred to by its position in \<open>videos\<close>.\<close>

definition getVideo :: "MobileReplayer \<Rightarrow> int option \<Rightarrow> nat option" where
  "getVideo self index =
     (case index of
        None \<Rightarrow> None
      | Some i \<Rightarrow> if 0 \<le> i \<and> i < int (length (videos self)) then Some (nat i) else None)"

definition updateVideo ::
  "nat \<Rightarrow> (HTMLVideoElement \<Rightarrow> HTMLVideoElement) \<Rightarrow> MobileReplayer \<Rightarrow> MobileReplayer" where
  "updateVideo v f self = self\<lparr>videos := (videos self)[v := f (videos self ! v)]\<rparr>"

definition hideVideo :: "MobileReplayer \<Rightarrow> int option \<Rightarrow> MobileReplayer" where
  "hideVideo self index =
     (case getVideo self index of
        None \<Rightarrow> self
      | Some video \<Rightarrow> updateVideo video (\<lambda>el. el\<lparr>display := DisplayNone\<rparr>) self)"

definition showVideo :: "MobileReplayer \<Rightarrow> nat option \<Rightarrow> MobileReplayer" where
  "showVideo self video =
     (case video of
        None \<Rightarrow> self
      | Some v \<Rightarrow> updateVideo v (\<lambda>el. el\<lparr>display := DisplayBlock\<rparr>) self)"

definition playVideo :: "MobileReplayer \<Rightarrow> nat option \<Rightarrow> MobileReplayer" where
  "playVideo self video =
     (case video of
        None \<Rightarrow> self
      | Some v \<Rightarrow>
          updateVideo v (\<lambda>el. el\<lparr>playbackRate := playbackSpeed self, paused := False\<rparr>) self)"

definition setVideoTime :: "MobileReplayer \<Rightarrow> nat \<Rightarrow> int \<Rightarrow> MobileReplayer" where
  "setVideoTime self video timeMs =
     updateVideo video (\<lambda>el. el\<lparr>currentTime := real_of_int timeMs / 1000\<rparr>) self"

text \<open>\<open>loadSegment\<close> from the hiding of the previous video to its return: what runs at
  once when the timer has reached the segment, and after the wake-up otherwise.\<close>

definition loadSegment_show :: "MobileReplayer \<Rightarrow> int \<Rightarrow> int \<Rightarrow> MobileReplayer \<times> int" where
  "loadSegment_show self index segmentOffsetMs =
     (let previousIndex = index - 1;
          s1 = (if previousIndex \<ge> 0 then hideVideo self (Some previousIndex) else self);
          s2 = hideVideo s1 (currentIndex s1);
          nextVideo = getVideo s2 (Some index);
          s3 = showVideo s2 nextVideo
      in case nextVideo of
           Some v \<Rightarrow> ((setVideoTime s3 v segmentOffsetMs)\<lparr>currentIndex := Some index\<rparr>, index)
         | None \<Rightarrow> (s3\<lparr>console := console s3 @ [''Loading invalid video'']\<rparr>, - 1))"

definition loadSegment ::
  "MobileReplayer \<Rightarrow> int option \<Rightarrow> int \<Rightarrow> awaiting \<Rightarrow> MobileReplayer \<times> int promise" where
  "loadSegment self index segmentOffsetMs k =
     (case index of
        None \<Rightarrow> (self, Resolved (- 1))
      | Some i \<Rightarrow>
          if i < 0 \<or> i \<ge> int (length (attachments self)) then (self, Resolved (- 1))
          else
            let now = getTime (timer self) in
            case getSegment self index of
              None \<Rightarrow> (self, Resolved (- 1))
            | Some currentSegment \<Rightarrow>
                let currentSegmentOffset = timestamp currentSegment - startTimestamp self in
                if now < currentSegmentOffset then
                  (self\<lparr>timer := addNotificationAtTime currentSegmentOffset
                                     (LoadSegment i segmentOffsetMs k) (timer self)\<rparr>,
                   Pending)
                else
                  (case loadSegment_show self i segmentOffsetMs of
                     (s, r) \<Rightarrow> (s, Resolved r)))"

text \<open>\<open>playSegmentAtIndex\<close> after its \<open>await\<close>; the loaded index is a number, so the
  test \<open>loadedSegmentIndex !== undefined\<close> holds.\<close>

definition playSegmentAtIndex_rest :: "MobileReplayer \<Rightarrow> int \<Rightarrow> MobileReplayer" where
  "playSegmentAtIndex_rest self loadedSegmentIndex =
     playVideo self (getVideo self (Some loadedSegmentIndex))"

definition playSegmentAtIndex :: "MobileReplayer \<Rightarrow> int option \<Rightarrow> MobileReplayer" where
  "playSegmentAtIndex self index =
     (case loadSegment self index 0 PlaySegmentAtIndex of
        (s, Resolved loadedSegmentIndex) \<Rightarrow> playSegmentAtIndex_rest s loadedSegmentIndex
      | (s, _) \<Rightarrow> s)"

definition handleSegmentEnd :: "MobileReplayer \<Rightarrow> int \<Rightarrow> MobileReplayer" where
  "handleSegmentEnd self index =
     (let nextIndex = index + 1 in
      if nextIndex \<ge> int (length (attachments self)) then
        self\<lparr>timer := timer_stop None (timer self), callbacks := callbacks self @ [OnFinished]\<rparr>
      else playSegmentAtIndex self (Some nextIndex))"

text \<open>The listener of \<open>loadedmetadata\<close> that \<open>createVideo\<close> attaches to the video at
  \<open>index\<close>.\<close>

definition handleLoadedMetadata :: "MobileReplayer \<Rightarrow> int \<Rightarrow> MobileReplayer" where
  "handleLoadedMetadata self index =
     (if Some index = currentIndex self then self\<lparr>callbacks := callbacks self @ [OnLoaded index]\<rparr>
      else self)"

record SegmentIndexForTime =
  previousSegment :: "int option"
  segment :: "int option"

definition getSegmentIndexForTime :: "MobileReplayer \<Rightarrow> int \<Rightarrow> error + SegmentIndexForTime" where
  "getSegmentIndexForTime self relativeOffsetMs =
     (let ts = startTimestamp self + relativeOffsetMs in
      case findSegmentIndex (trackList self) (attachments self) ts
             0 (int (length (trackList self)) - 1) of
        Inl e \<Rightarrow> Inl e
      | Inr result \<Rightarrow>
          (case getSegment self (Some result) of
             None \<Rightarrow> Inl UndefinedProperty
           | Some resultSegment \<Rightarrow>
               let isExactSegment =
                     (ts \<ge> timestamp resultSegment \<and>
                      ts \<le> timestamp resultSegment + duration resultSegment)
               in Inr \<lparr>previousSegment = (if \<not> isExactSegment then Some result else None),
                       segment = (if isExactSegment then Some result else None)\<rparr>))"

text \<open>\<open>loadSegmentAtTime\<close> from \<open>const segment = this.getSegment(nextSegmentIndex)\<close>
  to its return.\<close>

definition loadSegmentAtTime_rest ::
  "MobileReplayer \<Rightarrow> int \<Rightarrow> int option \<Rightarrow> caller \<Rightarrow> MobileReplayer \<times> int option promise" where
  "loadSegmentAtTime_rest self videoOffsetMs nextSegmentIndex c =
     (case getSegment self nextSegmentIndex of
        None \<Rightarrow> (self, Resolved None)
      | Some seg \<Rightarrow>
          let segmentOffsetMs = (startTimestamp self + videoOffsetMs) - timestamp seg in
          case loadSegment self nextSegmentIndex segmentOffsetMs (LoadSegmentAtTime_return c) of
            (s, Resolved r) \<Rightarrow> (s, Resolved (Some r))
          | (s, Pending) \<Rightarrow> (s, Pending)
          | (s, Rejected e) \<Rightarrow> (s, Rejected e))"

definition loadSegmentAtTime ::
  "MobileReplayer \<Rightarrow> int \<Rightarrow> caller \<Rightarrow> MobileReplayer \<times> int option promise" where
  "loadSegmentAtTime self videoOffsetMs c =
     (case getSegmentIndexForTime self videoOffsetMs of
        Inl e \<Rightarrow> (self, Rejected e)
      | Inr found \<Rightarrow>
          (case (segment found, previousSegment found) of
             (None, Some previousSegmentIndex) \<Rightarrow>
               (case getSegment self (Some previousSegmentIndex) of
                  None \<Rightarrow> (self, Rejected UndefinedProperty)
                | Some previousSeg \<Rightarrow>
                    (case loadSegment self (Some previousSegmentIndex) (duration previousSeg)
                            (LoadSegmentAtTime_previous videoOffsetMs previousSegmentIndex c) of
                       (s, Resolved r) \<Rightarrow>
                         loadSegmentAtTime_rest s videoOffsetMs (Some (previousSegmentIndex + 1)) c
                     | (s, Pending) \<Rightarrow> (s, Pending)
                     | (s, Rejected e) \<Rightarrow> (s, Rejected e)))
           | (segmentIndex, _) \<Rightarrow> loadSegmentAtTime_rest self videoOffsetMs segmentIndex c))"

text \<open>\<open>playSegmentAtTime\<close> after its \<open>await\<close>.\<close>

definition playSegmentAtTime_rest :: "MobileReplayer \<Rightarrow> int option \<Rightarrow> MobileReplayer" where
  "playSegmentAtTime_rest self loadedSegmentIndex =
     (case loadedSegmentIndex of
        None \<Rightarrow> self
      | Some i \<Rightarrow> playVideo self (getVideo self (Some i)))"

definition playSegmentAtTime :: "MobileReplayer \<Rightarrow> int \<Rightarrow> MobileReplayer \<times> unit promise" where
  "playSegmentAtTime self videoOffsetMs =
     (case loadSegmentAtTime self videoOffsetMs FromPlaySegmentAtTime of
        (s, Resolved loadedSegmentIndex) \<Rightarrow> (playSegmentAtTime_rest s loadedSegmentIndex, Resolved ())
      | (s, Pending) \<Rightarrow> (s, Pending)
      | (s, Rejected e) \<Rightarrow> (s, Rejected e))"

definition getCurrentTime :: "MobileReplayer \<Rightarrow> int" where
  "getCurrentTime self = (case currentIndex self of None \<Rightarrow> 0 | Some i \<Rightarrow> getTime (timer self))"

definition play :: "MobileReplayer \<Rightarrow> int \<Rightarrow> MobileReplayer" where
  "play self videoOffsetMs =
     floating (playSegmentAtTime (self\<lparr>timer := timer_start videoOffsetMs (timer self)\<rparr>)
                 videoOffsetMs)"

definition pause :: "MobileReplayer \<Rightarrow> int \<Rightarrow> MobileReplayer" where
  "pause self videoOffsetMs =
     (let s1 = (case getVideo self (currentIndex self) of
                  None \<Rightarrow> self
                | Some currentVideo \<Rightarrow> updateVideo currentVideo (\<lambda>el. el\<lparr>paused := True\<rparr>) self);
          s2 = s1\<lparr>timer := timer_stop (Some videoOffsetMs) (timer s1)\<rparr>
      in floating (loadSegmentAtTime s2 videoOffsetMs FromPause))"

definition setConfig :: "MobileReplayer \<Rightarrow> real option \<Rightarrow> MobileReplayer" where
  "setConfig self speed =
     (case speed of
        None \<Rightarrow> self
      | Some sp \<Rightarrow>
          let s1 = self\<lparr>playbackSpeed := sp\<rparr> in
          case getVideo s1 (currentIndex s1) of
            None \<Rightarrow> s1
          | Some currentVideo \<Rightarrow>
              updateVideo currentVideo (\<lambda>el. el\<lparr>playbackRate := playbackSpeed s1\<rparr>) s1)"

text \<open>The constructor: one hidden video per attachment, the track list, and
  \<open>this.loadSegment(0)\<close> with the default offset 0, its promise dropped.\<close>

definition constructor :: "MobileAttachment list \<Rightarrow> int \<Rightarrow> MobileReplayer" where
  "constructor atts start =
     floating
       (loadSegment
          \<lparr>attachments = atts, callbacks = [], currentIndex = None, playbackSpeed = 1,
           startTimestamp = start, timer = newTimer, trackList = mkTrackList atts,
           videos = map (createVideo 1) atts, console = [], unhandledRejections = []\<rparr>
          (Some 0) 0 Constructor)"

subsection \<open>Wake-ups and runs\<close>

text \<open>What follows \<open>loadSegmentAtTime\<close> in the function that called it.\<close>

definition caller_rest :: "caller \<Rightarrow> MobileReplayer \<Rightarrow> int option \<Rightarrow> MobileReplayer" where
  "caller_rest c self loaded =
     (case c of
        FromPlaySegmentAtTime \<Rightarrow> playSegmentAtTime_rest self loaded
      | FromPause \<Rightarrow> self)"

text \<open>The timer resolves the promise a \<open>loadSegment\<close> frame waits for: the frame shows
  its segment and returns to the function that awaits it.\<close>

fun resume :: "suspended \<Rightarrow> MobileReplayer \<Rightarrow> MobileReplayer" where
  "resume (LoadSegment index segmentOffsetMs k) self =
     (case loadSegment_show self index segmentOffsetMs of
        (s, r) \<Rightarrow>
          (case k of
             Constructor \<Rightarrow> s
           | PlaySegmentAtIndex \<Rightarrow> playSegmentAtIndex_rest s r
           | LoadSegmentAtTime_previous videoOffsetMs previousSegmentIndex c \<Rightarrow>
               (case loadSegmentAtTime_rest s videoOffsetMs (Some (previousSegmentIndex + 1)) c of
                  (s', Resolved loaded) \<Rightarrow> caller_rest c s' loaded
                | (s', Pending) \<Rightarrow> s'
                | (s', Rejected e) \<Rightarrow> floating (s', Rejected e :: unit promise))
           | LoadSegmentAtTime_return c \<Rightarrow> caller_rest c s (Some r)))"

text \<open>The events a player receives between its construction and its disposal: the
  calls of its public methods, the \<open>ended\<close> and \<open>loadedmetadata\<close> events of the video
  at an index, the passing of time and the firing of the \<open>n\<close>-th pending wake-up of the
  timer (the order among due wake-ups is left open).\<close>

datatype event =
    Play int
  | Pause int
  | SetConfig "real option"
  | Ended nat
  | LoadedMetadata nat
  | TimePasses nat
  | Notify nat

fun step :: "MobileReplayer \<Rightarrow> event \<Rightarrow> MobileReplayer" where
  "step self (Play videoOffsetMs) = play self videoOffsetMs"
| "step self (Pause videoOffsetMs) = pause self videoOffsetMs"
| "step self (SetConfig speed) = setConfig self speed"
| "step self (Ended index) =
     (if index < length (videos self) then handleSegmentEnd self (int index) else self)"
| "step self (LoadedMetadata index) =
     (if index < length (videos self) then handleLoadedMetadata self (int index) else self)"
| "step self (TimePasses ms) = self\<lparr>timer := timer_advance ms (timer self)\<rparr>"
| "step self (Notify n) =
     (if notificationDue (timer self) n
      then resume (snd (pending (timer self) ! n))
             (self\<lparr>timer := removeNotification n (timer self)\<rparr>)
      else self)"

definition run :: "MobileReplayer \<Rightarrow> event list \<Rightarrow> MobileReplayer" where
  "run self events = foldl step self events"

subsection \<open>Predicates on the state of the player\<close>

text \<open>The positions of the videos that are shown.\<close>

definition shownIndices :: "MobileReplayer \<Rightarrow> nat list" where
  "shownIndices self =
     filter (\<lambda>i. display (videos self ! i) = DisplayBlock) [0..<length (videos self)]"

text \<open>Every shown video is the one at the active segment index: the set of shown
  positions is empty or the singleton of the active index.\<close>

definition shownIsActive :: "MobileReplayer \<Rightarrow> bool" where
  "shownIsActive self = (int ` set (shownIndices self) \<subseteq> set_option (currentIndex self))"

text \<open>A player over a well-formed segment list: the track list and the videos are those
  the constructor builds from the attachments, the attachments are sorted by start, do
  not overlap and have durations that are not negative, and every shown video is the
  active one.\<close>

definition wellFormed :: "MobileReplayer \<Rightarrow> bool" where
  "wellFormed self =
     (trackList self = mkTrackList (attachments self) \<and>
      length (videos self) = length (attachments self) \<and>
      sortedByStart (attachments self) \<and>
      nonOverlapping (attachments self) \<and>
      list_all (\<lambda>a. 0 \<le> duration a) (attachments self) \<and>
      shownIsActive self)"

text \<open>The segment at \<open>index\<close> is the active one, shown, sought to offset 0 and
  playing at the playback speed.\<close>

definition playingFromStart :: "MobileReplayer \<Rightarrow> int \<Rightarrow> bool" where
  "playingFromStart self index =
     (currentIndex self = Some index \<and>
      display (videos self ! nat index) = DisplayBlock \<and>
      currentTime (videos self ! nat index) = 0 \<and>
      \<not> paused (videos self ! nat index) \<and>
      playbackRate (videos self ! nat index) = playbackSpeed self)"

text \<open>The first steps of \<open>loadSegment_show\<close>: the video before \<open>index\<close> and the
  active video are hidden.\<close>

definition hidePrevious :: "MobileReplayer \<Rightarrow> int \<Rightarrow> MobileReplayer" where
  "hidePrevious self index =
     hideVideo (if index - 1 \<ge> 0 then hideVideo self (Some (index - 1)) else self)
       (currentIndex self)"

text \<open>Two states of a player show the same videos and have the same active index.\<close>

definition sameDisplay :: "MobileReplayer \<Rightarrow> MobileReplayer \<Rightarrow> bool" where
  "sameDisplay self s =
     (map display (videos s) = map display (videos self) \<and> currentIndex s = currentIndex self)"

text \<open>Two states of a player have the same videos playing and the same elapsed time.\<close>

definition keepsPlayback :: "MobileReplayer \<Rightarrow> MobileReplayer \<Rightarrow> bool" where
  "keepsPlayback self s =
     (map paused (videos s) = map paused (videos self) \<and>
      time (timer s) = time (timer self) \<and> running (timer s) = running (timer self))"

text \<open>The state in which \<open>pause\<close> calls \<open>loadSegmentAtTime\<close>: the active video is
  paused and the timer is stopped at the offset.\<close>

definition pause_stopped :: "MobileReplayer \<Rightarrow> int \<Rightarrow> MobileReplayer" where
  "pause_stopped self videoOffsetMs =
     (let s1 = (case getVideo self (currentIndex self) of
                  None \<Rightarrow> self
                | Some currentVideo \<Rightarrow> updateVideo currentVideo (\<lambda>el. el\<lparr>paused := True\<rparr>) self)
      in s1\<lparr>timer := timer_stop (Some videoOffsetMs) (timer s1)\<rparr>)"

text \<open>Two states of a player have the same attachments, track list and number of
  videos.\<close>

definition sameData :: "MobileReplayer \<Rightarrow> MobileReplayer \<Rightarrow> bool" where
  "sameData self s =
     (attachments s = attachments self \<and> trackList s = trackList self \<and>
      length (videos s) = length (videos self))"

text \<open>A recording whose first segment starts half a second after the replay.\<close>

definition delayedSegments :: "MobileAttachment list" where
  "delayedSegments = [\<lparr>duration = 1000, timestamp = 500, uri = ''a''\<rparr>]"

text \<open>
  What a lookup over \<open>[s, e]\<close> can return on a sorted list: a segment of the interval
  that contains the target, or the bound \<open>r\<close> with every start up to \<open>r\<close> before the
  target and every start after \<open>r\<close> behind it.
\<close>

definition lookupOutcome :: "MobileAttachment list \<Rightarrow> int \<Rightarrow> int \<Rightarrow> int \<Rightarrow> int \<Rightarrow> bool" where
  "lookupOutcome segs t s e r =
     ((s \<le> r \<and> r \<le> e \<and> inSegment (segs ! nat r) t) \<or>
      (s - 1 \<le> r \<and> r \<le> e \<and>
       (\<forall>j. s \<le> j \<and> j \<le> r \<longrightarrow> timestamp (segs ! nat j) < t) \<and>
       (\<forall>j. r < j \<and> j \<le> e \<longrightarrow> t < timestamp (segs ! nat j))))"

section \<open>Properties of the segment lookup\<close>

lemma js_nth_mkTrackList:
  "0 \<le> m \<Longrightarrow> m < int (length segs) \<Longrightarrow>
   js_nth (mkTrackList segs) m = Some (timestamp (segs ! nat m), m)"
  by (simp add: js_nth_def mkTrackList_def nth_enumerate_eq)

lemma js_nth_in_range:
  "0 \<le> m \<Longrightarrow> m < int (length xs) \<Longrightarrow> js_nth xs m = Some (xs ! nat m)"
  by (simp add: js_nth_def)

lemma sortedByStart_nth:
  assumes "sortedByStart segs" "0 \<le> i" "i \<le> j" "j < int (length segs)"
  shows "timestamp (segs ! nat i) \<le> timestamp (segs ! nat j)"
proof (cases "i = j")
  case True
  then show ?thesis by simp
next
  case False
  with assms have ij: "nat i < nat j" and j: "nat j < length segs" by auto
  from assms(1) have "sorted_wrt (\<lambda>a b. timestamp a \<le> timestamp b) segs"
    by (simp add: sortedByStart_def)
  from sorted_wrt_nth_less [OF this ij j] show ?thesis .
qed

lemma nonOverlapping_nth:
  assumes "nonOverlapping segs" "0 \<le> i" "i < j" "j < int (length segs)"
  shows "timestamp (segs ! nat i) + duration (segs ! nat i) \<le> timestamp (segs ! nat j)"
proof -
  from assms have ij: "nat i < nat j" and j: "nat j < length segs" by auto
  from assms(1) have "sorted_wrt (\<lambda>a b. timestamp a + duration a \<le> timestamp b) segs"
    by (simp add: nonOverlapping_def)
  from sorted_wrt_nth_less [OF this ij j] show ?thesis .
qed

text \<open>One probe of the lookup on the constructor's track list.\<close>

lemma findSegmentIndex_probe:
  assumes "0 \<le> s" "s \<le> e" "e < int (length segs)"
  shows "findSegmentIndex (mkTrackList segs) segs t s e =
     (let mid = (s + e) div 2 in
      if inSegment (segs ! nat mid) t then Inr mid
      else if t > timestamp (segs ! nat mid)
        then findSegmentIndex (mkTrackList segs) segs t (mid + 1) e
        else findSegmentIndex (mkTrackList segs) segs t s (mid - 1))"
proof -
  let ?mid = "(s + e) div 2"
  from assms have m: "0 \<le> ?mid" "?mid < int (length segs)" by auto
  show ?thesis
    apply (subst findSegmentIndex.simps)
    using assms m
    apply (simp add: Let_def js_nth_mkTrackList js_nth_in_range segmentMatch_def inSegment_def)
    done
qed

lemma findSegmentIndex_inside:
  assumes srt: "sortedByStart segs" and nov: "nonOverlapping segs"
    and i: "i < length segs"
    and lo: "timestamp (segs ! i) < t" and hi: "t < timestamp (segs ! i) + duration (segs ! i)"
  shows "0 \<le> s \<Longrightarrow> s \<le> int i \<Longrightarrow> int i \<le> e \<Longrightarrow> e < int (length segs) \<Longrightarrow>
         findSegmentIndex (mkTrackList segs) segs t s e = Inr (int i)"
proof (induction "nat (e - s + 1)" arbitrary: s e rule: less_induct)
  case less
  let ?mid = "(s + e) div 2"
  from less.prems have se: "s \<le> e" and m: "s \<le> ?mid" "?mid \<le> e" by auto
  have probe: "findSegmentIndex (mkTrackList segs) segs t s e =
     (if inSegment (segs ! nat ?mid) t then Inr ?mid
      else if t > timestamp (segs ! nat ?mid)
        then findSegmentIndex (mkTrackList segs) segs t (?mid + 1) e
        else findSegmentIndex (mkTrackList segs) segs t s (?mid - 1))"
    using findSegmentIndex_probe [OF less.prems(1) se less.prems(4), of t]
    by (simp add: Let_def)
  consider (eq) "?mid = int i" | (below) "?mid < int i" | (above) "int i < ?mid" by linarith
  then show ?case
  proof cases
    case eq
    then have "nat ?mid = i" by simp
    with lo hi have "inSegment (segs ! nat ?mid) t" by (simp add: inSegment_def)
    with probe eq show ?thesis by simp
  next
    case below
    from less.prems m have m0: "0 \<le> ?mid" by linarith
    have "timestamp (segs ! nat ?mid) + duration (segs ! nat ?mid) \<le> timestamp (segs ! nat (int i))"
      using nonOverlapping_nth [OF nov m0 below] i by simp
    with lo have out: "\<not> inSegment (segs ! nat ?mid) t" by (simp add: inSegment_def)
    have "timestamp (segs ! nat ?mid) \<le> timestamp (segs ! nat (int i))"
      using sortedByStart_nth [OF srt m0, of "int i"] below i by simp
    with lo have gt: "t > timestamp (segs ! nat ?mid)" by simp
    have "findSegmentIndex (mkTrackList segs) segs t (?mid + 1) e = Inr (int i)"
      using less.hyps [of e "?mid + 1"] less.prems below m m0 by auto
    with probe out gt show ?thesis by simp
  next
    case above
    from less.prems have i0: "0 \<le> int i" by simp
    have "timestamp (segs ! nat (int i)) + duration (segs ! nat (int i)) \<le> timestamp (segs ! nat ?mid)"
      using nonOverlapping_nth [OF nov i0 above] less.prems m by simp
    with hi have lt: "t < timestamp (segs ! nat ?mid)" by simp
    then have out: "\<not> inSegment (segs ! nat ?mid) t" by (simp add: inSegment_def)
    have "findSegmentIndex (mkTrackList segs) segs t s (?mid - 1) = Inr (int i)"
      using less.hyps [of "?mid - 1" s] less.prems above m by auto
    with probe out lt show ?thesis by simp
  qed
qed


lemma findSegmentIndex_partial_total:
  "findSegmentIndex_partial track segments targetTimestamp start end =
   Some (findSegmentIndex track segments targetTimestamp start end)"
proof (induction track segments targetTimestamp start "end" rule: findSegmentIndex.induct)
  case (1 track segments targetTimestamp start "end")
  show ?case
    apply (subst findSegmentIndex_partial.simps)
    apply (subst findSegmentIndex.simps)
    using 1
    apply (auto simp: Let_def split: option.splits sum.splits prod.splits)
    done
qed

lemma findSegmentIndex_outcome:
  assumes srt: "sortedByStart segs" and dur: "\<forall>a \<in> set segs. 0 \<le> duration a"
  shows "0 \<le> s \<Longrightarrow> e < int (length segs) \<Longrightarrow> s \<le> e + 1 \<Longrightarrow>
         \<exists>r. findSegmentIndex (mkTrackList segs) segs t s e = Inr r \<and> lookupOutcome segs t s e r"
proof (induction "nat (e - s + 1)" arbitrary: s e rule: less_induct)
  case less
  show ?case
  proof (cases "s > e")
    case True
    with less.prems have "findSegmentIndex (mkTrackList segs) segs t s e = Inr e"
      by (subst findSegmentIndex.simps) simp
    moreover from True less.prems have "lookupOutcome segs t s e e"
      by (auto simp: lookupOutcome_def)
    ultimately show ?thesis by blast
  next
    case False
    then have se: "s \<le> e" by simp
    let ?mid = "(s + e) div 2"
    from less.prems se have m: "s \<le> ?mid" "?mid \<le> e" "0 \<le> ?mid" "?mid < int (length segs)"
      by auto
    have probe: "findSegmentIndex (mkTrackList segs) segs t s e =
       (if inSegment (segs ! nat ?mid) t then Inr ?mid
        else if t > timestamp (segs ! nat ?mid)
          then findSegmentIndex (mkTrackList segs) segs t (?mid + 1) e
          else findSegmentIndex (mkTrackList segs) segs t s (?mid - 1))"
      using findSegmentIndex_probe [OF less.prems(1) se less.prems(2), of t]
      by (simp add: Let_def)
    from m have "segs ! nat ?mid \<in> set segs" by simp
    with dur have d: "0 \<le> duration (segs ! nat ?mid)" by blast
    consider (hit) "inSegment (segs ! nat ?mid) t"
      | (higher) "\<not> inSegment (segs ! nat ?mid) t" "t > timestamp (segs ! nat ?mid)"
      | (lower) "\<not> inSegment (segs ! nat ?mid) t" "\<not> t > timestamp (segs ! nat ?mid)"
      by blast
    then show ?thesis
    proof cases
      case hit
      with probe m show ?thesis by (auto simp: lookupOutcome_def)
    next
      case higher
      from less.hyps [of e "?mid + 1"] less.prems m se
      obtain r where r: "findSegmentIndex (mkTrackList segs) segs t (?mid + 1) e = Inr r"
        and o: "lookupOutcome segs t (?mid + 1) e r" by auto
      have below: "timestamp (segs ! nat j) < t" if "s \<le> j" "j \<le> ?mid" for j
      proof -
        from that less.prems have "0 \<le> j" by simp
        from sortedByStart_nth [OF srt this that(2) m(4)] higher(2) show ?thesis by simp
      qed
      from o have "lookupOutcome segs t s e r"
        unfolding lookupOutcome_def
      proof (elim disjE conjE)
        assume "?mid + 1 \<le> r" "r \<le> e" "inSegment (segs ! nat r) t"
        with m show "(s \<le> r \<and> r \<le> e \<and> inSegment (segs ! nat r) t) \<or>
          (s - 1 \<le> r \<and> r \<le> e \<and>
           (\<forall>j. s \<le> j \<and> j \<le> r \<longrightarrow> timestamp (segs ! nat j) < t) \<and>
           (\<forall>j. r < j \<and> j \<le> e \<longrightarrow> t < timestamp (segs ! nat j)))" by simp
      next
        assume a: "?mid + 1 - 1 \<le> r" "r \<le> e"
          "\<forall>j. ?mid + 1 \<le> j \<and> j \<le> r \<longrightarrow> timestamp (segs ! nat j) < t"
          "\<forall>j. r < j \<and> j \<le> e \<longrightarrow> t < timestamp (segs ! nat j)"
        have "\<forall>j. s \<le> j \<and> j \<le> r \<longrightarrow> timestamp (segs ! nat j) < t"
        proof (intro allI impI)
          fix j assume j: "s \<le> j \<and> j \<le> r"
          show "timestamp (segs ! nat j) < t"
          proof (cases "j \<le> ?mid")
            case True
            with j below show ?thesis by blast
          next
            case False
            with j a(3) show ?thesis by simp
          qed
        qed
        with a m show "(s \<le> r \<and> r \<le> e \<and> inSegment (segs ! nat r) t) \<or>
          (s - 1 \<le> r \<and> r \<le> e \<and>
           (\<forall>j. s \<le> j \<and> j \<le> r \<longrightarrow> timestamp (segs ! nat j) < t) \<and>
           (\<forall>j. r < j \<and> j \<le> e \<longrightarrow> t < timestamp (segs ! nat j)))" by simp
      qed
      with probe higher r show ?thesis by simp
    next
      case lower
      from lower d have lt: "t < timestamp (segs ! nat ?mid)"
        by (auto simp: inSegment_def)
      from less.hyps [of "?mid - 1" s] less.prems m se
      obtain r where r: "findSegmentIndex (mkTrackList segs) segs t s (?mid - 1) = Inr r"
        and o: "lookupOutcome segs t s (?mid - 1) r" by auto
      have above: "t < timestamp (segs ! nat j)" if "?mid \<le> j" "j \<le> e" for j
      proof -
        from that less.prems have "j < int (length segs)" by simp
        from sortedByStart_nth [OF srt m(3) that(1) this] lt show ?thesis by simp
      qed
      from o have "lookupOutcome segs t s e r"
        unfolding lookupOutcome_def
      proof (elim disjE conjE)
        assume "s \<le> r" "r \<le> ?mid - 1" "inSegment (segs ! nat r) t"
        with m show "(s \<le> r \<and> r \<le> e \<and> inSegment (segs ! nat r) t) \<or>
          (s - 1 \<le> r \<and> r \<le> e \<and>
           (\<forall>j. s \<le> j \<and> j \<le> r \<longrightarrow> timestamp (segs ! nat j) < t) \<and>
           (\<forall>j. r < j \<and> j \<le> e \<longrightarrow> t < timestamp (segs ! nat j)))" by simp
      next
        assume a: "s - 1 \<le> r" "r \<le> ?mid - 1"
          "\<forall>j. s \<le> j \<and> j \<le> r \<longrightarrow> timestamp (segs ! nat j) < t"
          "\<forall>j. r < j \<and> j \<le> ?mid - 1 \<longrightarrow> t < timestamp (segs ! nat j)"
        have "\<forall>j. r < j \<and> j \<le> e \<longrightarrow> t < timestamp (segs ! nat j)"
        proof (intro allI impI)
          fix j assume j: "r < j \<and> j \<le> e"
          show "t < timestamp (segs ! nat j)"
          proof (cases "?mid \<le> j")
            case True
            with j above show ?thesis by blast
          next
            case False
            with j a(4) show ?thesis by simp
          qed
        qed
        with a m show "(s \<le> r \<and> r \<le> e \<and> inSegment (segs ! nat r) t) \<or>
          (s - 1 \<le> r \<and> r \<le> e \<and>
           (\<forall>j. s \<le> j \<and> j \<le> r \<longrightarrow> timestamp (segs ! nat j) < t) \<and>
           (\<forall>j. r < j \<and> j \<le> e \<longrightarrow> t < timestamp (segs ! nat j)))" by simp
      qed
      with probe lower r show ?thesis by simp
    qed
  qed
qed


lemma findSegmentIndex_result_kinds:
  "0 \<le> s \<Longrightarrow> e < int (length trk) \<Longrightarrow>
     findSegmentIndex trk segs t s e \<noteq> Inl NotIterable \<and>
     ((\<forall>p \<in> set trk. 0 \<le> snd p \<and> snd p < int (length segs)) \<longrightarrow>
        (\<exists>i. findSegmentIndex trk segs t s e = Inr i))"
proof (induction "nat (e - s + 1)" arbitrary: s e rule: less_induct)
  case less
  show ?case
  proof (cases "s > e")
    case True
    then show ?thesis by (subst (1 2) findSegmentIndex.simps) simp
  next
    case False
    let ?mid = "(s + e) div 2"
    from False less.prems have m: "s \<le> ?mid" "?mid \<le> e" "0 \<le> ?mid" "?mid < int (length trk)"
      by auto
    obtain ts index where p: "trk ! nat ?mid = (ts, index)" by (cases "trk ! nat ?mid")
    with m have nth: "js_nth trk ?mid = Some (ts, index)" by (simp add: js_nth_def)
    from m have mem: "trk ! nat ?mid \<in> set trk" by simp
    have hi: "findSegmentIndex trk segs t (?mid + 1) e \<noteq> Inl NotIterable \<and>
       ((\<forall>p \<in> set trk. 0 \<le> snd p \<and> snd p < int (length segs)) \<longrightarrow>
        (\<exists>i. findSegmentIndex trk segs t (?mid + 1) e = Inr i))"
      using less.hyps [of e "?mid + 1"] less.prems m by auto
    have lo: "findSegmentIndex trk segs t s (?mid - 1) \<noteq> Inl NotIterable \<and>
       ((\<forall>p \<in> set trk. 0 \<le> snd p \<and> snd p < int (length segs)) \<longrightarrow>
        (\<exists>i. findSegmentIndex trk segs t s (?mid - 1) = Inr i))"
      using less.hyps [of "?mid - 1" s] less.prems m by auto
    have ne: "findSegmentIndex trk segs t s e \<noteq> Inl NotIterable"
      apply (subst findSegmentIndex.simps)
      using False nth hi lo
      apply (auto simp: Let_def segmentMatch_def split: sum.splits option.splits)
      done
    have ok: "\<exists>i. findSegmentIndex trk segs t s e = Inr i"
      if all: "\<forall>p \<in> set trk. 0 \<le> snd p \<and> snd p < int (length segs)"
    proof -
      from all mem p have "0 \<le> index \<and> index < int (length segs)" by fastforce
      then obtain seg where seg: "js_nth segs index = Some seg" by (simp add: js_nth_def)
      from hi all obtain i1 where i1: "findSegmentIndex trk segs t (?mid + 1) e = Inr i1" by blast
      from lo all obtain i2 where i2: "findSegmentIndex trk segs t s (?mid - 1) = Inr i2" by blast
      show ?thesis
        apply (subst findSegmentIndex.simps)
        using False nth seg i1 i2
        apply (simp add: Let_def segmentMatch_def)
        done
    qed
    from ne ok show ?thesis by blast
  qed
qed



section \<open>Claims about the segment lookup\<close>

text \<open>
  C1. For every segment list sorted ascending by start timestamp with no overlapping
  segments, and every target timestamp strictly inside segment \<open>i\<close>
  (start < target < start + duration), \<open>findSegmentIndex\<close> called over the full bounds
  \<open>[0, n - 1]\<close> on the constructor's track list returns exactly \<open>i\<close>.
\<close>

theorem findSegmentIndex_strictly_inside:
  assumes "sortedByStart segments" and "nonOverlapping segments"
    and "i < length segments"
    and "timestamp (segments ! i) < targetTimestamp"
    and "targetTimestamp < timestamp (segments ! i) + duration (segments ! i)"
  shows "findSegmentIndex (mkTrackList segments) segments targetTimestamp
           0 (int (length segments) - 1) = Inr (int i)"
  using findSegmentIndex_inside [OF assms, of 0 "int (length segments) - 1"] assms(3)
  by simp

theorem findSegmentIndex_strictly_inside_witness:
  "sortedByStart exampleSegments \<and> nonOverlapping exampleSegments \<and>
   (1::nat) < length exampleSegments \<and>
   timestamp (exampleSegments ! 1) < 2000 \<and>
   2000 < timestamp (exampleSegments ! 1) + duration (exampleSegments ! 1) \<and>
   findSegmentIndex (mkTrackList exampleSegments) exampleSegments 2000
     0 (int (length exampleSegments) - 1) = Inr 1"
proof -
  have h1: "sortedByStart exampleSegments"
    by (simp add: sortedByStart_def exampleSegments_def)
  have h2: "nonOverlapping exampleSegments"
    by (simp add: nonOverlapping_def exampleSegments_def)
  have h3: "(1::nat) < length exampleSegments"
    by (simp add: exampleSegments_def)
  have h4: "timestamp (exampleSegments ! 1) < 2000"
    by (simp add: exampleSegments_def)
  have h5: "2000 < timestamp (exampleSegments ! 1) + duration (exampleSegments ! 1)"
    by (simp add: exampleSegments_def)
  from findSegmentIndex_strictly_inside [OF h1 h2 h3 h4 h5] h1 h2 h3 h4 h5
  show ?thesis by simp
qed

text \<open>
  C2. For every sorted, non-overlapping segment list (durations are lengths, so not
  negative) and every target timestamp contained in no segment's closed interval,
  \<open>findSegmentIndex\<close> over the full bounds returns an index \<open>r\<close> with
  \<open>-1 \<le> r < n\<close> such that the segments with start \<open>\<le> target\<close> are exactly those at
  indices \<open>\<le> r\<close>: \<open>r\<close> is the latest segment whose start is \<open>\<le> target\<close>. So a target
  in the gap between segments \<open>i\<close> and \<open>i + 1\<close> yields \<open>i\<close>, and a target that
  precedes every start yields \<open>-1\<close>.
\<close>

theorem findSegmentIndex_in_gap:
  assumes srt: "sortedByStart segments" and nov: "nonOverlapping segments"
    and dur: "\<forall>a \<in> set segments. 0 \<le> duration a"
    and out: "\<forall>a \<in> set segments. \<not> inSegment a targetTimestamp"
  shows "\<exists>r. findSegmentIndex (mkTrackList segments) segments targetTimestamp
                0 (int (length segments) - 1) = Inr r \<and>
             - 1 \<le> r \<and> r < int (length segments) \<and>
             (\<forall>j < length segments. (int j \<le> r) = (timestamp (segments ! j) \<le> targetTimestamp)) \<and>
             (\<forall>i. Suc i < length segments \<and>
                   timestamp (segments ! i) + duration (segments ! i) < targetTimestamp \<and>
                   targetTimestamp < timestamp (segments ! Suc i) \<longrightarrow> r = int i) \<and>
             ((\<forall>a \<in> set segments. targetTimestamp < timestamp a) \<longrightarrow> r = - 1)"
proof -
  let ?n = "int (length segments)"
  from findSegmentIndex_outcome [OF srt dur, of 0 "?n - 1" targetTimestamp]
  obtain r where r: "findSegmentIndex (mkTrackList segments) segments targetTimestamp 0 (?n - 1) = Inr r"
    and o: "lookupOutcome segments targetTimestamp 0 (?n - 1) r" by auto
  have nohit: "\<not> (0 \<le> r \<and> r \<le> ?n - 1 \<and> inSegment (segments ! nat r) targetTimestamp)"
  proof
    assume a: "0 \<le> r \<and> r \<le> ?n - 1 \<and> inSegment (segments ! nat r) targetTimestamp"
    then have "nat r < length segments" by linarith
    then have "segments ! nat r \<in> set segments" by (rule nth_mem)
    with out a show False by blast
  qed
  with o have b: "- 1 \<le> r" "r \<le> ?n - 1"
    and below: "\<forall>j. 0 \<le> j \<and> j \<le> r \<longrightarrow> timestamp (segments ! nat j) < targetTimestamp"
    and above: "\<forall>j. r < j \<and> j \<le> ?n - 1 \<longrightarrow> targetTimestamp < timestamp (segments ! nat j)"
    unfolding lookupOutcome_def by auto
  have char: "(int j \<le> r) = (timestamp (segments ! j) \<le> targetTimestamp)"
    if "j < length segments" for j
  proof (cases "int j \<le> r")
    case True
    with below [rule_format, of "int j"] show ?thesis by simp
  next
    case False
    with above [rule_format, of "int j"] that show ?thesis by simp
  qed
  have gap: "r = int i"
    if "Suc i < length segments"
      "timestamp (segments ! i) + duration (segments ! i) < targetTimestamp"
      "targetTimestamp < timestamp (segments ! Suc i)" for i
  proof -
    from that(1) have "segments ! i \<in> set segments" by simp
    with dur have "0 \<le> duration (segments ! i)" by blast
    with that(2) have "timestamp (segments ! i) \<le> targetTimestamp" by simp
    with char [of i] that(1) have 1: "int i \<le> r" by simp
    from char [of "Suc i"] that(1,3) have "\<not> int (Suc i) \<le> r" by simp
    with 1 show ?thesis by simp
  qed
  have first: "r = - 1" if all: "\<forall>a \<in> set segments. targetTimestamp < timestamp a"
  proof (rule ccontr)
    assume "r \<noteq> - 1"
    with b have r0: "0 \<le> r" "nat r < length segments" by auto
    then have "segments ! nat r \<in> set segments" by simp
    with all have "targetTimestamp < timestamp (segments ! nat r)" by blast
    moreover from char [of "nat r"] r0 have "timestamp (segments ! nat r) \<le> targetTimestamp"
      by simp
    ultimately show False by simp
  qed
  from r b char gap first show ?thesis by auto
qed

theorem findSegmentIndex_in_gap_witness:
  "sortedByStart exampleSegments \<and> nonOverlapping exampleSegments \<and>
   list_all (\<lambda>a. 0 \<le> duration a) exampleSegments \<and>
   list_all (\<lambda>a. \<not> inSegment a 1200) exampleSegments \<and>
   findSegmentIndex (mkTrackList exampleSegments) exampleSegments 1200
     0 (int (length exampleSegments) - 1) = Inr 0"
proof -
  have h1: "sortedByStart exampleSegments"
    by (simp add: sortedByStart_def exampleSegments_def)
  have h2: "nonOverlapping exampleSegments"
    by (simp add: nonOverlapping_def exampleSegments_def)
  have h3: "\<forall>a \<in> set exampleSegments. 0 \<le> duration a"
    by (simp add: exampleSegments_def)
  have h4: "\<forall>a \<in> set exampleSegments. \<not> inSegment a 1200"
    by (simp add: exampleSegments_def inSegment_def)
  from findSegmentIndex_in_gap [OF h1 h2 h3 h4]
  obtain r where r: "findSegmentIndex (mkTrackList exampleSegments) exampleSegments 1200
      0 (int (length exampleSegments) - 1) = Inr r"
    and g: "\<forall>i. Suc i < length exampleSegments \<and>
         timestamp (exampleSegments ! i) + duration (exampleSegments ! i) < 1200 \<and>
         1200 < timestamp (exampleSegments ! Suc i) \<longrightarrow> r = int i"
    by blast
  from g [rule_format, of 0] have "r = 0" by (simp add: exampleSegments_def)
  with r h1 h2 h3 h4 show ?thesis by (simp add: list_all_iff)
qed

lemma length_mkTrackList_eq: "length (mkTrackList segs) = length segs"
  by (simp add: mkTrackList_def)

lemma mkTrackList_indices:
  "\<forall>p \<in> set (mkTrackList segs). 0 \<le> snd p \<and> snd p < int (length segs)"
  by (auto simp: mkTrackList_def in_set_enumerate_eq)

text \<open>
  C9. \<open>findSegmentIndex\<close> terminates for every track list, segment list, target
  timestamp and integer bounds with \<open>0 \<le> start\<close> and \<open>end\<close> below the length of the
  track list: both recursive calls are on a strictly smaller interval, so the recursion
  is well-founded, and the run never fails on the track list itself. Over a track list
  whose entries index the segment list, which is every track list the function receives
  (its only caller passes the one the constructor builds, over the full bounds), the run
  ends in a containment hit or in the \<open>start > end\<close> base case: it returns an index.
\<close>

theorem findSegmentIndex_terminates:
  assumes "0 \<le> start" and "end < int (length track)"
  shows "(\<exists>r. findSegmentIndex_partial track segments targetTimestamp start end = Some r \<and>
              r \<noteq> Inl NotIterable \<and>
              ((\<forall>p \<in> set track. 0 \<le> snd p \<and> snd p < int (length segments)) \<longrightarrow>
                 (\<exists>i. r = Inr i))) \<and>
         (start \<le> end \<longrightarrow>
            intervalSize ((start + end) div 2 + 1) end < intervalSize start end \<and>
            intervalSize start ((start + end) div 2 - 1) < intervalSize start end) \<and>
         (\<exists>i. findSegmentIndex_partial (mkTrackList segments) segments targetTimestamp
                 0 (int (length segments) - 1) = Some (Inr i))"
proof -
  have "findSegmentIndex_partial track segments targetTimestamp start end =
        Some (findSegmentIndex track segments targetTimestamp start end)"
    by (rule findSegmentIndex_partial_total)
  moreover note findSegmentIndex_result_kinds [OF assms, of segments targetTimestamp]
  moreover have "start \<le> end \<longrightarrow>
            intervalSize ((start + end) div 2 + 1) end < intervalSize start end \<and>
            intervalSize start ((start + end) div 2 - 1) < intervalSize start end"
    by (auto simp: intervalSize_def)
  moreover have "\<exists>i. findSegmentIndex_partial (mkTrackList segments) segments targetTimestamp
                 0 (int (length segments) - 1) = Some (Inr i)"
  proof -
    have b: "(0::int) \<le> 0" "int (length segments) - 1 < int (length (mkTrackList segments))"
      by (simp_all add: length_mkTrackList_eq)
    from findSegmentIndex_result_kinds [OF b, of segments targetTimestamp]
      mkTrackList_indices [of segments]
    obtain i where "findSegmentIndex (mkTrackList segments) segments targetTimestamp
        0 (int (length segments) - 1) = Inr i" by blast
    then show ?thesis by (simp add: findSegmentIndex_partial_total)
  qed
  ultimately show ?thesis by simp
qed

theorem findSegmentIndex_terminates_witness:
  "(0::int) \<le> 0 \<and> 2 < int (length (mkTrackList exampleSegments)) \<and>
   list_all (\<lambda>p. 0 \<le> snd p \<and> snd p < int (length exampleSegments)) (mkTrackList exampleSegments) \<and>
   (\<exists>i. findSegmentIndex_partial (mkTrackList exampleSegments) exampleSegments 1200 0 2 = Some (Inr i)) \<and>
   intervalSize ((0 + 2) div 2 + 1) 2 < intervalSize 0 2"
proof -
  have h1: "(0::int) \<le> 0" by simp
  have h2: "2 < int (length (mkTrackList exampleSegments))"
    by (simp add: mkTrackList_def exampleSegments_def)
  have h3: "\<forall>p \<in> set (mkTrackList exampleSegments). 0 \<le> snd p \<and> snd p < int (length exampleSegments)"
    by (simp add: mkTrackList_def exampleSegments_def)
  from findSegmentIndex_terminates [OF h1 h2, of exampleSegments 1200] h1 h2 h3
  show ?thesis by (auto simp: list_all_iff)
qed


section \<open>Claims about single operations of the player\<close>

lemmas video_defs =
  updateVideo_def hideVideo_def showVideo_def playVideo_def setVideoTime_def getVideo_def

lemma shownIsActive_iff:
  "shownIsActive self \<longleftrightarrow>
     (\<forall>i < length (videos self). display (videos self ! i) = DisplayBlock \<longrightarrow>
        currentIndex self = Some (int i))"
  by (auto simp: shownIsActive_def shownIndices_def)

text \<open>
  C3, as the claim states it, fails: in the end-to-end scenario segment 0 ends at elapsed
  time 1000 while segment 1 starts at 1500. \<open>handleSegmentEnd(0)\<close> does not begin
  playback of segment 1: the handle stays hidden and paused, segment 0 stays the active
  one, and a wake-up at 1500 is registered with the timer.
\<close>

theorem handleSegmentEnd_counterexample:
  "0 + 1 < int (length (attachments (run (constructor exampleSegments 0) [Play 0, TimePasses 1000]))) \<and>
   display (videos (handleSegmentEnd
      (run (constructor exampleSegments 0) [Play 0, TimePasses 1000]) 0) ! 1) = DisplayNone \<and>
   paused (videos (handleSegmentEnd
      (run (constructor exampleSegments 0) [Play 0, TimePasses 1000]) 0) ! 1) \<and>
   currentIndex (handleSegmentEnd
      (run (constructor exampleSegments 0) [Play 0, TimePasses 1000]) 0) = Some 0 \<and>
   pending (timer (handleSegmentEnd
      (run (constructor exampleSegments 0) [Play 0, TimePasses 1000]) 0)) =
     [(1500, LoadSegment 1 0 PlaySegmentAtIndex)]"
  by code_simp

text \<open>
  C3, amended. When the handle at \<open>index\<close> reports completion the player advances to
  \<open>index + 1\<close>. If \<open>index + 1\<close> is out of range it stops the Virtual Timer (at its
  current time) and invokes \<open>onFinished\<close>, and changes nothing else. Otherwise, if the
  timer has reached the start offset of segment \<open>index + 1\<close> (its timestamp minus the
  origin), that segment becomes the active one at once: its handle is shown, sought to
  offset 0 and played at the playback speed, the handle at \<open>index\<close> is hidden and the
  timer is untouched. If the timer has not reached that offset (a gap), the only effect is
  a wake-up registered with the timer at that offset; the frame it wakes up shows the
  segment at offset 0 and plays it.
\<close>

theorem handleSegmentEnd_advances:
  assumes idx: "0 \<le> index" and len: "length (videos self) = length (attachments self)"
  shows
   "(index + 1 \<ge> int (length (attachments self)) \<longrightarrow>
       handleSegmentEnd self index =
         self\<lparr>timer := timer_stop None (timer self), callbacks := callbacks self @ [OnFinished]\<rparr> \<and>
       \<not> running (timer (handleSegmentEnd self index)) \<and>
       time (timer (handleSegmentEnd self index)) = time (timer self)) \<and>
    (index + 1 < int (length (attachments self)) \<and>
     timestamp (attachments self ! nat (index + 1)) - startTimestamp self \<le> time (timer self) \<longrightarrow>
       playingFromStart (handleSegmentEnd self index) (index + 1) \<and>
       display (videos (handleSegmentEnd self index) ! nat index) = DisplayNone \<and>
       timer (handleSegmentEnd self index) = timer self) \<and>
    (index + 1 < int (length (attachments self)) \<and>
     time (timer self) < timestamp (attachments self ! nat (index + 1)) - startTimestamp self \<longrightarrow>
       handleSegmentEnd self index =
         self\<lparr>timer := addNotificationAtTime
                          (timestamp (attachments self ! nat (index + 1)) - startTimestamp self)
                          (LoadSegment (index + 1) 0 PlaySegmentAtIndex) (timer self)\<rparr> \<and>
       playingFromStart
         (resume (LoadSegment (index + 1) 0 PlaySegmentAtIndex) (handleSegmentEnd self index))
         (index + 1))"
proof (intro conjI impI)
  assume "index + 1 \<ge> int (length (attachments self))"
  then show "handleSegmentEnd self index =
         self\<lparr>timer := timer_stop None (timer self), callbacks := callbacks self @ [OnFinished]\<rparr>"
    by (simp add: handleSegmentEnd_def Let_def)
  then show "\<not> running (timer (handleSegmentEnd self index))"
    "time (timer (handleSegmentEnd self index)) = time (timer self)"
    by (simp_all add: timer_stop_def)
next
  assume a: "index + 1 < int (length (attachments self)) \<and>
     timestamp (attachments self ! nat (index + 1)) - startTimestamp self \<le> time (timer self)"
  with idx len show "playingFromStart (handleSegmentEnd self index) (index + 1)"
    by (simp add: handleSegmentEnd_def Let_def playSegmentAtIndex_def loadSegment_def
        getSegment_def js_nth_def getTime_def loadSegment_show_def playSegmentAtIndex_rest_def
        video_defs playingFromStart_def split: option.splits)
  from a idx len have "nat index < length (videos self)" by linarith
  with a idx len show "display (videos (handleSegmentEnd self index) ! nat index) = DisplayNone"
    by (auto simp add: handleSegmentEnd_def Let_def playSegmentAtIndex_def loadSegment_def
        getSegment_def js_nth_def getTime_def loadSegment_show_def playSegmentAtIndex_rest_def
        video_defs nth_list_update nat_add_distrib split: option.splits)
  from a idx len show "timer (handleSegmentEnd self index) = timer self"
    by (simp add: handleSegmentEnd_def Let_def playSegmentAtIndex_def loadSegment_def
        getSegment_def js_nth_def getTime_def loadSegment_show_def playSegmentAtIndex_rest_def
        video_defs split: option.splits)
next
  assume a: "index + 1 < int (length (attachments self)) \<and>
     time (timer self) < timestamp (attachments self ! nat (index + 1)) - startTimestamp self"
  with idx len show eq: "handleSegmentEnd self index =
         self\<lparr>timer := addNotificationAtTime
                          (timestamp (attachments self ! nat (index + 1)) - startTimestamp self)
                          (LoadSegment (index + 1) 0 PlaySegmentAtIndex) (timer self)\<rparr>"
    by (simp add: handleSegmentEnd_def Let_def playSegmentAtIndex_def loadSegment_def
        getSegment_def js_nth_def getTime_def)
  from a idx len
  show "playingFromStart
         (resume (LoadSegment (index + 1) 0 PlaySegmentAtIndex) (handleSegmentEnd self index))
         (index + 1)"
    unfolding eq
    by (simp add: loadSegment_show_def playSegmentAtIndex_rest_def Let_def
        video_defs playingFromStart_def split: option.splits)
qed

theorem handleSegmentEnd_advances_witness:
  "playingFromStart
     (handleSegmentEnd (run (constructor exampleSegments 0) [Play 0, TimePasses 1500]) 0) 1 \<and>
   playingFromStart
     (resume (LoadSegment 1 0 PlaySegmentAtIndex)
        (handleSegmentEnd (run (constructor exampleSegments 0) [Play 0, TimePasses 1000]) 0)) 1 \<and>
   \<not> running (timer (handleSegmentEnd
        (run (constructor exampleSegments 0) [Play 3000, TimePasses 500]) 2))"
proof -
  let ?late = "run (constructor exampleSegments 0) [Play 0, TimePasses 1500]"
  let ?gap = "run (constructor exampleSegments 0) [Play 0, TimePasses 1000]"
  let ?last = "run (constructor exampleSegments 0) [Play 3000, TimePasses 500]"
  have l1: "length (videos ?late) = length (attachments ?late)" by code_simp
  have l2: "0 + 1 < int (length (attachments ?late)) \<and>
     timestamp (attachments ?late ! nat (0 + 1)) - startTimestamp ?late \<le> time (timer ?late)"
    by code_simp
  have g1: "length (videos ?gap) = length (attachments ?gap)" by code_simp
  have g2: "0 + 1 < int (length (attachments ?gap)) \<and>
     time (timer ?gap) < timestamp (attachments ?gap ! nat (0 + 1)) - startTimestamp ?gap"
    by code_simp
  have e1: "length (videos ?last) = length (attachments ?last)" by code_simp
  have e2: "2 + 1 \<ge> int (length (attachments ?last))" by code_simp
  have z: "(0::int) \<le> 0" "(0::int) \<le> 2" by simp_all
  from handleSegmentEnd_advances [OF z(1) l1] l2
  have w1: "playingFromStart (handleSegmentEnd ?late 0) (0 + 1)" by blast
  from handleSegmentEnd_advances [OF z(1) g1] g2
  have w2: "playingFromStart
      (resume (LoadSegment (0 + 1) 0 PlaySegmentAtIndex) (handleSegmentEnd ?gap 0)) (0 + 1)"
    by blast
  from handleSegmentEnd_advances [OF z(2) e1] e2
  have w3: "\<not> running (timer (handleSegmentEnd ?last 2))" by blast
  have one: "(0::int) + 1 = 1" by simp
  from w1 w2 w3 show ?thesis unfolding one by blast
qed

text \<open>
  C5 does not hold of the code. With a first segment that starts after the replay's
  origin, offset 0 resolves to a timestamp before every segment: the lookup returns -1,
  \<open>getSegment(-1)\<close> is \<open>undefined\<close> and \<open>getSegmentIndexForTime\<close> raises a
  \<open>TypeError\<close> reading its \<open>timestamp\<close>. The error rejects the promise of
  \<open>loadSegmentAtTime\<close>, which neither \<open>play\<close> nor \<open>pause\<close> handles.
\<close>

theorem getSegmentIndexForTime_before_first_segment:
  "getSegmentIndexForTime (constructor delayedSegments 0) 0 = Inl UndefinedProperty \<and>
   unhandledRejections (play (constructor delayedSegments 0) 0) = [UndefinedProperty] \<and>
   unhandledRejections (pause (constructor delayedSegments 0) 0) = [UndefinedProperty] \<and>
   getSegmentIndexForTime (constructor [] 0) 0 = Inl UndefinedProperty"
  by code_simp

text \<open>
  C6. \<open>loadSegment\<close> called with an index that is undefined, negative or not below the
  number of segments resolves at once to the sentinel -1 and leaves the whole state of
  the player as it was: no handle's visibility or seek position, not the active index,
  not the timer.
\<close>

theorem loadSegment_invalid_index:
  assumes "index = None \<or> (\<exists>i. index = Some i \<and> (i < 0 \<or> i \<ge> int (length (attachments self))))"
  shows "loadSegment self index segmentOffsetMs k = (self, Resolved (- 1))"
  using assms by (auto simp: loadSegment_def)

theorem loadSegment_invalid_index_witness:
  "loadSegment (constructor exampleSegments 0) (Some 3) 250 PlaySegmentAtIndex =
     (constructor exampleSegments 0, Resolved (- 1)) \<and>
   loadSegment (constructor exampleSegments 0) (Some (- 1)) 250 PlaySegmentAtIndex =
     (constructor exampleSegments 0, Resolved (- 1)) \<and>
   loadSegment (constructor exampleSegments 0) None 250 PlaySegmentAtIndex =
     (constructor exampleSegments 0, Resolved (- 1))"
proof -
  have n: "int (length (attachments (constructor exampleSegments 0))) = 3" by code_simp
  have h1: "Some (3::int) = None \<or>
    (\<exists>i. Some 3 = Some i \<and> (i < 0 \<or> i \<ge> int (length (attachments (constructor exampleSegments 0)))))"
    using n by simp
  have h2: "Some (- 1::int) = None \<or>
    (\<exists>i. Some (- 1) = Some i \<and> (i < 0 \<or> i \<ge> int (length (attachments (constructor exampleSegments 0)))))"
    by simp
  have h3: "(None::int option) = None \<or>
    (\<exists>i. None = Some i \<and> (i < 0 \<or> i \<ge> int (length (attachments (constructor exampleSegments 0)))))"
    by simp
  from loadSegment_invalid_index [OF h1] loadSegment_invalid_index [OF h2]
    loadSegment_invalid_index [OF h3]
  show ?thesis by simp
qed

text \<open>
  C7. \<open>setConfig\<close> with a defined speed stores it as the playback speed and sets the
  playback rate of the handle at the active index to it, which is every shown handle when
  the shown handles are the active one; no field of the player other than the playback
  speed and the videos changes, so the timer (elapsed time, running flag, wake-ups) and
  the active index are as before, and so are every handle's seek position, visibility
  and paused flag and every other handle's rate. With the speed undefined nothing
  changes.
\<close>

theorem setConfig_only_sets_speed:
  "setConfig self None = self \<and>
   setConfig self (Some sp) =
     self\<lparr>playbackSpeed := sp, videos := videos (setConfig self (Some sp))\<rparr> \<and>
   playbackSpeed (setConfig self (Some sp)) = sp \<and>
   timer (setConfig self (Some sp)) = timer self \<and>
   currentIndex (setConfig self (Some sp)) = currentIndex self \<and>
   attachments (setConfig self (Some sp)) = attachments self \<and>
   startTimestamp (setConfig self (Some sp)) = startTimestamp self \<and>
   trackList (setConfig self (Some sp)) = trackList self \<and>
   callbacks (setConfig self (Some sp)) = callbacks self \<and>
   length (videos (setConfig self (Some sp))) = length (videos self) \<and>
   (\<forall>i < length (videos self).
      display (videos (setConfig self (Some sp)) ! i) = display (videos self ! i) \<and>
      currentTime (videos (setConfig self (Some sp)) ! i) = currentTime (videos self ! i) \<and>
      paused (videos (setConfig self (Some sp)) ! i) = paused (videos self ! i) \<and>
      src (videos (setConfig self (Some sp)) ! i) = src (videos self ! i) \<and>
      playbackRate (videos (setConfig self (Some sp)) ! i) =
        (if currentIndex self = Some (int i) then sp else playbackRate (videos self ! i))) \<and>
   (shownIsActive self \<longrightarrow>
      (\<forall>i \<in> set (shownIndices self). playbackRate (videos (setConfig self (Some sp)) ! i) = sp))"
proof -
  have frame: "playbackSpeed (setConfig self (Some sp)) = sp \<and>
   timer (setConfig self (Some sp)) = timer self \<and>
   currentIndex (setConfig self (Some sp)) = currentIndex self \<and>
   attachments (setConfig self (Some sp)) = attachments self \<and>
   startTimestamp (setConfig self (Some sp)) = startTimestamp self \<and>
   trackList (setConfig self (Some sp)) = trackList self \<and>
   callbacks (setConfig self (Some sp)) = callbacks self \<and>
   length (videos (setConfig self (Some sp))) = length (videos self)"
    by (simp add: setConfig_def video_defs Let_def split: option.splits)
  have pt: "display (videos (setConfig self (Some sp)) ! i) = display (videos self ! i) \<and>
      currentTime (videos (setConfig self (Some sp)) ! i) = currentTime (videos self ! i) \<and>
      paused (videos (setConfig self (Some sp)) ! i) = paused (videos self ! i) \<and>
      src (videos (setConfig self (Some sp)) ! i) = src (videos self ! i) \<and>
      playbackRate (videos (setConfig self (Some sp)) ! i) =
        (if currentIndex self = Some (int i) then sp else playbackRate (videos self ! i))"
    if "i < length (videos self)" for i
    using that
    by (auto simp: setConfig_def video_defs Let_def nth_list_update split: option.splits)
  have shown: "playbackRate (videos (setConfig self (Some sp)) ! i) = sp"
    if "shownIsActive self" "i \<in> set (shownIndices self)" for i
  proof -
    from that(2) have i: "i < length (videos self)" "display (videos self ! i) = DisplayBlock"
      by (auto simp: shownIndices_def)
    with that(1) have "currentIndex self = Some (int i)" by (simp add: shownIsActive_iff)
    with pt [OF i(1)] show ?thesis by simp
  qed
  have none: "setConfig self None = self" by (simp add: setConfig_def)
  have rest: "setConfig self (Some sp) =
     self\<lparr>playbackSpeed := sp, videos := videos (setConfig self (Some sp))\<rparr>"
    by (simp add: setConfig_def video_defs Let_def split: option.splits)
  from none rest frame pt shown show ?thesis by blast
qed

theorem setConfig_only_sets_speed_witness:
  "playbackRate (videos (setConfig (run (constructor exampleSegments 0) [Play 500]) (Some 2)) ! 0) = 2 \<and>
   currentTime (videos (setConfig (run (constructor exampleSegments 0) [Play 500]) (Some 2)) ! 0) = 1 / 2 \<and>
   playbackRate (videos (setConfig (run (constructor exampleSegments 0) [Play 500]) (Some 2)) ! 1) = 1 \<and>
   time (timer (setConfig (run (constructor exampleSegments 0) [Play 500]) (Some 2))) = 500"
proof -
  let ?s = "run (constructor exampleSegments 0) [Play 500]"
  have n: "0 < length (videos ?s)" "1 < length (videos ?s)" by code_simp+
  have c: "currentIndex ?s = Some 0" by code_simp
  have v: "currentTime (videos ?s ! 0) = 1 / 2" "playbackRate (videos ?s ! 1) = 1" by code_simp+
  have t: "time (timer ?s) = 500" by code_simp
  from setConfig_only_sets_speed [of ?s 2]
  have all: "\<forall>i < length (videos ?s).
      display (videos (setConfig ?s (Some 2)) ! i) = display (videos ?s ! i) \<and>
      currentTime (videos (setConfig ?s (Some 2)) ! i) = currentTime (videos ?s ! i) \<and>
      paused (videos (setConfig ?s (Some 2)) ! i) = paused (videos ?s ! i) \<and>
      src (videos (setConfig ?s (Some 2)) ! i) = src (videos ?s ! i) \<and>
      playbackRate (videos (setConfig ?s (Some 2)) ! i) =
        (if currentIndex ?s = Some (int i) then 2 else playbackRate (videos ?s ! i))"
    and tm: "timer (setConfig ?s (Some 2)) = timer ?s"
    by blast+
  from all [rule_format, OF n(1)] all [rule_format, OF n(2)] tm c v t
  show ?thesis by simp
qed

text \<open>
  C10. Whenever the lookup for \<open>startTimestamp + relativeOffsetMs\<close> resolves to an index
  \<open>r\<close> of the segment list, \<open>getSegmentIndexForTime\<close> returns a record in which exactly
  one of \<open>segment\<close> and \<open>previousSegment\<close> is defined: \<open>segment\<close> is \<open>r\<close> when the
  timestamp lies in that segment's closed interval, and \<open>previousSegment\<close> is \<open>r\<close>
  otherwise.
\<close>

theorem getSegmentIndexForTime_exactly_one:
  assumes "findSegmentIndex (trackList self) (attachments self)
             (startTimestamp self + relativeOffsetMs)
             0 (int (length (trackList self)) - 1) = Inr r"
    and "0 \<le> r" and "r < int (length (attachments self))"
  shows "\<exists>found. getSegmentIndexForTime self relativeOffsetMs = Inr found \<and>
           (segment found = None) \<noteq> (previousSegment found = None) \<and>
           (if inSegment (attachments self ! nat r) (startTimestamp self + relativeOffsetMs)
            then segment found = Some r \<and> previousSegment found = None
            else previousSegment found = Some r \<and> segment found = None)"
  using assms
  by (simp add: getSegmentIndexForTime_def getSegment_def js_nth_def Let_def inSegment_def)

theorem getSegmentIndexForTime_exactly_one_witness:
  "(\<exists>found. getSegmentIndexForTime (constructor exampleSegments 0) 1200 = Inr found \<and>
      previousSegment found = Some 0 \<and> segment found = None) \<and>
   (\<exists>found. getSegmentIndexForTime (constructor exampleSegments 0) 1700 = Inr found \<and>
      segment found = Some 1 \<and> previousSegment found = None)"
proof -
  let ?s = "constructor exampleSegments 0"
  have a1: "findSegmentIndex (trackList ?s) (attachments ?s) (startTimestamp ?s + 1200)
      0 (int (length (trackList ?s)) - 1) = Inr 0" by code_simp
  have a2: "findSegmentIndex (trackList ?s) (attachments ?s) (startTimestamp ?s + 1700)
      0 (int (length (trackList ?s)) - 1) = Inr 1" by code_simp
  have b: "(0::int) \<le> 0" "(0::int) \<le> 1" "0 < int (length (attachments ?s))"
    "1 < int (length (attachments ?s))" by code_simp+
  have c1: "\<not> inSegment (attachments ?s ! nat 0) (startTimestamp ?s + 1200)" by code_simp
  have c2: "inSegment (attachments ?s ! nat 1) (startTimestamp ?s + 1700)" by code_simp
  from getSegmentIndexForTime_exactly_one [OF a1 b(1) b(3)] c1
    getSegmentIndexForTime_exactly_one [OF a2 b(2) b(4)] c2
  show ?thesis by auto
qed


section \<open>The shown handle is the active one\<close>

lemma sameDisplay_refl: "sameDisplay self self"
  by (simp add: sameDisplay_def)

lemma sameDisplay_trans: "sameDisplay a b \<Longrightarrow> sameDisplay b c \<Longrightarrow> sameDisplay a c"
  by (simp add: sameDisplay_def)

lemma sameDisplay_shownIsActive:
  assumes "sameDisplay self s" and "shownIsActive self"
  shows "shownIsActive s"
proof -
  from assms(1) have m: "map display (videos s) = map display (videos self)"
    and c: "currentIndex s = currentIndex self" by (simp_all add: sameDisplay_def)
  from m have len: "length (videos s) = length (videos self)" by (metis length_map)
  have "display (videos s ! i) = display (videos self ! i)" if "i < length (videos self)" for i
    using that m len by (metis nth_map)
  with assms(2) len c show ?thesis by (simp add: shownIsActive_iff)
qed

lemma nth_update_if:
  "j < length xs \<Longrightarrow> (xs[i := x]) ! j = (if i = j then x else xs ! j)"
  by (cases "i < length xs") (auto simp: nth_list_update list_update_beyond)

lemma sameDisplay_updateVideo:
  assumes "\<And>el. display (f el) = display el"
  shows "sameDisplay self (updateVideo v f self)"
proof -
  have "map display ((videos self)[v := f (videos self ! v)]) = map display (videos self)"
    by (intro nth_equalityI) (auto simp: nth_update_if assms)
  then show ?thesis by (simp add: sameDisplay_def updateVideo_def)
qed

lemma sameDisplay_playVideo: "sameDisplay self (playVideo self v)"
  by (cases v) (simp_all add: playVideo_def sameDisplay_refl sameDisplay_updateVideo)

lemma sameDisplay_fields:
  "videos s = videos self \<Longrightarrow> currentIndex s = currentIndex self \<Longrightarrow> sameDisplay self s"
  by (simp add: sameDisplay_def)

lemma sameDisplay_floating:
  "sameDisplay (fst sp) (floating sp)"
  by (cases sp) (auto simp: floating_def sameDisplay_def split: promise.splits)

text \<open>The videos after each step of \<open>loadSegment_show\<close>.\<close>

lemma fields_updateVideo [simp]:
  "length (videos (updateVideo v f self)) = length (videos self)"
  "timer (updateVideo v f self) = timer self"
  "currentIndex (updateVideo v f self) = currentIndex self"
  "attachments (updateVideo v f self) = attachments self"
  "trackList (updateVideo v f self) = trackList self"
  "startTimestamp (updateVideo v f self) = startTimestamp self"
  "playbackSpeed (updateVideo v f self) = playbackSpeed self"
  "unhandledRejections (updateVideo v f self) = unhandledRejections self"
  by (simp_all add: updateVideo_def)

lemma nth_updateVideo:
  "i < length (videos self) \<Longrightarrow>
   videos (updateVideo v f self) ! i = (if v = i then f (videos self ! i) else videos self ! i)"
  by (simp add: updateVideo_def nth_update_if)

lemma fields_hideVideo [simp]:
  "length (videos (hideVideo self idx)) = length (videos self)"
  "timer (hideVideo self idx) = timer self"
  "currentIndex (hideVideo self idx) = currentIndex self"
  "attachments (hideVideo self idx) = attachments self"
  "trackList (hideVideo self idx) = trackList self"
  "startTimestamp (hideVideo self idx) = startTimestamp self"
  "playbackSpeed (hideVideo self idx) = playbackSpeed self"
  "unhandledRejections (hideVideo self idx) = unhandledRejections self"
  by (simp_all add: hideVideo_def split: option.splits)

lemma nth_hideVideo:
  "i < length (videos self) \<Longrightarrow>
   videos (hideVideo self idx) ! i =
     (if idx = Some (int i) then (videos self ! i)\<lparr>display := DisplayNone\<rparr> else videos self ! i)"
  by (auto simp: hideVideo_def getVideo_def nth_updateVideo split: option.splits)

lemma fields_showVideo [simp]:
  "length (videos (showVideo self v)) = length (videos self)"
  "timer (showVideo self v) = timer self"
  "currentIndex (showVideo self v) = currentIndex self"
  "attachments (showVideo self v) = attachments self"
  "trackList (showVideo self v) = trackList self"
  "startTimestamp (showVideo self v) = startTimestamp self"
  "playbackSpeed (showVideo self v) = playbackSpeed self"
  "unhandledRejections (showVideo self v) = unhandledRejections self"
  by (simp_all add: showVideo_def split: option.splits)

lemma nth_showVideo:
  "i < length (videos self) \<Longrightarrow>
   videos (showVideo self v) ! i =
     (if v = Some i then (videos self ! i)\<lparr>display := DisplayBlock\<rparr> else videos self ! i)"
  by (auto simp: showVideo_def nth_updateVideo split: option.splits)

lemma fields_setVideoTime [simp]:
  "length (videos (setVideoTime self v t)) = length (videos self)"
  "timer (setVideoTime self v t) = timer self"
  "currentIndex (setVideoTime self v t) = currentIndex self"
  "attachments (setVideoTime self v t) = attachments self"
  "trackList (setVideoTime self v t) = trackList self"
  "startTimestamp (setVideoTime self v t) = startTimestamp self"
  "playbackSpeed (setVideoTime self v t) = playbackSpeed self"
  "unhandledRejections (setVideoTime self v t) = unhandledRejections self"
  by (simp_all add: setVideoTime_def)

lemma nth_setVideoTime:
  "i < length (videos self) \<Longrightarrow>
   videos (setVideoTime self v t) ! i =
     (if v = i then (videos self ! i)\<lparr>currentTime := real_of_int t / 1000\<rparr> else videos self ! i)"
  by (simp add: setVideoTime_def nth_updateVideo)

lemma fields_hidePrevious [simp]:
  "length (videos (hidePrevious self index)) = length (videos self)"
  "timer (hidePrevious self index) = timer self"
  "currentIndex (hidePrevious self index) = currentIndex self"
  "attachments (hidePrevious self index) = attachments self"
  "trackList (hidePrevious self index) = trackList self"
  "startTimestamp (hidePrevious self index) = startTimestamp self"
  "playbackSpeed (hidePrevious self index) = playbackSpeed self"
  "unhandledRejections (hidePrevious self index) = unhandledRejections self"
  by (simp_all add: hidePrevious_def)

lemma nth_hidePrevious:
  "i < length (videos self) \<Longrightarrow>
   videos (hidePrevious self index) ! i =
     (if int i = index - 1 \<or> currentIndex self = Some (int i)
      then (videos self ! i)\<lparr>display := DisplayNone\<rparr> else videos self ! i)"
  by (auto simp: hidePrevious_def nth_hideVideo)

lemma loadSegment_show_valid_eq:
  assumes "0 \<le> index" "index < int (length (videos self))"
  shows "loadSegment_show self index off =
     ((setVideoTime (showVideo (hidePrevious self index) (Some (nat index))) (nat index) off)
        \<lparr>currentIndex := Some index\<rparr>, index)"
  using assms
  by (auto simp add: loadSegment_show_def Let_def hidePrevious_def getVideo_def)

lemma loadSegment_show_invalid_eq:
  assumes "\<not> (0 \<le> index \<and> index < int (length (videos self)))"
  shows "loadSegment_show self index off =
     ((hidePrevious self index)\<lparr>console := console (hidePrevious self index) @ [''Loading invalid video'']\<rparr>, - 1)"
  using assms
  by (auto simp add: loadSegment_show_def Let_def hidePrevious_def getVideo_def showVideo_def)

lemma loadSegment_show_valid:
  assumes "0 \<le> index" "index < int (length (videos self))"
  shows "snd (loadSegment_show self index off) = index"
    and "currentIndex (fst (loadSegment_show self index off)) = Some index"
    and "length (videos (fst (loadSegment_show self index off))) = length (videos self)"
    and "timer (fst (loadSegment_show self index off)) = timer self"
    and "attachments (fst (loadSegment_show self index off)) = attachments self"
    and "trackList (fst (loadSegment_show self index off)) = trackList self"
    and "startTimestamp (fst (loadSegment_show self index off)) = startTimestamp self"
    and "playbackSpeed (fst (loadSegment_show self index off)) = playbackSpeed self"
    and "unhandledRejections (fst (loadSegment_show self index off)) = unhandledRejections self"
  by (simp_all add: loadSegment_show_valid_eq [OF assms])

lemma loadSegment_show_valid_nth:
  assumes "0 \<le> index" "index < int (length (videos self))" "i < length (videos self)"
  shows "videos (fst (loadSegment_show self index off)) ! i =
     (if int i = index
      then (videos self ! i)\<lparr>display := DisplayBlock, currentTime := real_of_int off / 1000\<rparr>
      else if int i = index - 1 \<or> currentIndex self = Some (int i)
      then (videos self ! i)\<lparr>display := DisplayNone\<rparr>
      else videos self ! i)"
proof -
  from assms(1) have "(nat index = i) = (int i = index)" by auto
  with assms(3) show ?thesis
    by (simp add: loadSegment_show_valid_eq [OF assms(1,2)] nth_setVideoTime nth_showVideo
        nth_hidePrevious)
qed

lemma loadSegment_show_valid_display:
  assumes "0 \<le> index" "index < int (length (videos self))" "i < length (videos self)"
  shows "display (videos (fst (loadSegment_show self index off)) ! i) =
           (if int i = index then DisplayBlock
            else if int i = index - 1 \<or> currentIndex self = Some (int i) then DisplayNone
            else display (videos self ! i))"
    and "currentTime (videos (fst (loadSegment_show self index off)) ! i) =
           (if int i = index then real_of_int off / 1000 else currentTime (videos self ! i))"
    and "paused (videos (fst (loadSegment_show self index off)) ! i) = paused (videos self ! i)"
  by (simp_all add: loadSegment_show_valid_nth [OF assms])

lemma loadSegment_show_invalid:
  assumes "\<not> (0 \<le> index \<and> index < int (length (videos self)))"
  shows "currentIndex (fst (loadSegment_show self index off)) = currentIndex self"
    and "length (videos (fst (loadSegment_show self index off))) = length (videos self)"
  by (simp_all add: loadSegment_show_invalid_eq [OF assms])

lemma loadSegment_show_invalid_display:
  assumes "\<not> (0 \<le> index \<and> index < int (length (videos self)))" "i < length (videos self)"
    "display (videos (fst (loadSegment_show self index off)) ! i) = DisplayBlock"
  shows "display (videos self ! i) = DisplayBlock"
  using assms(2,3)
  by (simp add: loadSegment_show_invalid_eq [OF assms(1)] nth_hidePrevious split: if_splits)

lemma loadSegment_show_shownIsActive:
  assumes "shownIsActive self"
  shows "shownIsActive (fst (loadSegment_show self index off))"
proof (cases "0 \<le> index \<and> index < int (length (videos self))")
  case True
  then have v: "0 \<le> index" "index < int (length (videos self))" by simp_all
  show ?thesis
    unfolding shownIsActive_iff
  proof (intro allI impI)
    fix i
    assume i: "i < length (videos (fst (loadSegment_show self index off)))"
      and b: "display (videos (fst (loadSegment_show self index off)) ! i) = DisplayBlock"
    from i have i': "i < length (videos self)" by (simp add: loadSegment_show_valid(3) [OF v])
    from assms i' have "display (videos self ! i) = DisplayBlock \<longrightarrow> currentIndex self = Some (int i)"
      by (simp add: shownIsActive_iff)
    with b have "int i = index"
      by (simp add: loadSegment_show_valid_display(1) [OF v i'] split: if_splits)
    then show "currentIndex (fst (loadSegment_show self index off)) = Some (int i)"
      by (simp add: loadSegment_show_valid(2) [OF v])
  qed
next
  case False
  show ?thesis
    unfolding shownIsActive_iff
  proof (intro allI impI)
    fix i
    assume i: "i < length (videos (fst (loadSegment_show self index off)))"
      and b: "display (videos (fst (loadSegment_show self index off)) ! i) = DisplayBlock"
    from i have i': "i < length (videos self)" by (simp add: loadSegment_show_invalid(2) [OF False])
    from loadSegment_show_invalid_display [OF False i' b] assms i'
    have "currentIndex self = Some (int i)" by (simp add: shownIsActive_iff)
    then show "currentIndex (fst (loadSegment_show self index off)) = Some (int i)"
      by (simp add: loadSegment_show_invalid(1) [OF False])
  qed
qed


lemma shownIsActive_update [simp]:
  "shownIsActive (self\<lparr>timer := t\<rparr>) = shownIsActive self"
  "shownIsActive (self\<lparr>callbacks := c\<rparr>) = shownIsActive self"
  "shownIsActive (self\<lparr>console := l\<rparr>) = shownIsActive self"
  "shownIsActive (self\<lparr>unhandledRejections := u\<rparr>) = shownIsActive self"
  "shownIsActive (self\<lparr>playbackSpeed := sp\<rparr>) = shownIsActive self"
  by (simp_all add: shownIsActive_def shownIndices_def)

lemma shownIsActive_updateVideo:
  assumes "\<And>el. display (f el) = display el" and "shownIsActive self"
  shows "shownIsActive (updateVideo v f self)"
  using sameDisplay_shownIsActive [OF sameDisplay_updateVideo [of f self v]] assms by simp

lemma shownIsActive_playVideo:
  "shownIsActive self \<Longrightarrow> shownIsActive (playVideo self v)"
  using sameDisplay_shownIsActive [OF sameDisplay_playVideo] by blast

lemma shownIsActive_floating:
  "shownIsActive (fst sp) \<Longrightarrow> shownIsActive (floating sp)"
  by (cases sp) (auto simp: floating_def split: promise.splits)

lemma shownIsActive_loadSegment_show:
  "loadSegment_show self index off = (s, r) \<Longrightarrow> shownIsActive self \<Longrightarrow> shownIsActive s"
  using loadSegment_show_shownIsActive [of self index off] by simp

lemma shownIsActive_loadSegment:
  "loadSegment self index off k = (s, p) \<Longrightarrow> shownIsActive self \<Longrightarrow> shownIsActive s"
  by (auto simp: loadSegment_def Let_def split: option.splits prod.splits if_splits
      dest: shownIsActive_loadSegment_show)

lemma shownIsActive_loadSegmentAtTime_rest:
  "loadSegmentAtTime_rest self off next c = (s, p) \<Longrightarrow> shownIsActive self \<Longrightarrow> shownIsActive s"
  by (auto simp: loadSegmentAtTime_rest_def Let_def
      split: option.splits prod.splits promise.splits dest: shownIsActive_loadSegment)

lemma shownIsActive_loadSegmentAtTime:
  "loadSegmentAtTime self off c = (s, p) \<Longrightarrow> shownIsActive self \<Longrightarrow> shownIsActive s"
  by (auto simp: loadSegmentAtTime_def
      split: sum.splits option.splits prod.splits promise.splits
      dest: shownIsActive_loadSegment shownIsActive_loadSegmentAtTime_rest)

lemma shownIsActive_playSegmentAtTime_rest:
  "shownIsActive self \<Longrightarrow> shownIsActive (playSegmentAtTime_rest self loaded)"
  by (cases loaded) (simp_all add: playSegmentAtTime_rest_def shownIsActive_playVideo)

lemma shownIsActive_playSegmentAtTime:
  "playSegmentAtTime self off = (s, p) \<Longrightarrow> shownIsActive self \<Longrightarrow> shownIsActive s"
  by (auto simp: playSegmentAtTime_def shownIsActive_playSegmentAtTime_rest
      split: prod.splits promise.splits dest: shownIsActive_loadSegmentAtTime)

lemma shownIsActive_play:
  assumes "shownIsActive self"
  shows "shownIsActive (play self off)"
proof -
  obtain s p where sp: "playSegmentAtTime (self\<lparr>timer := timer_start off (timer self)\<rparr>) off = (s, p)"
    by force
  from shownIsActive_playSegmentAtTime [OF sp] assms have "shownIsActive s" by simp
  with sp show ?thesis by (simp add: play_def shownIsActive_floating)
qed

lemma shownIsActive_pause:
  assumes "shownIsActive self"
  shows "shownIsActive (pause self off)"
proof -
  let ?s1 = "case getVideo self (currentIndex self) of
          None \<Rightarrow> self
        | Some currentVideo \<Rightarrow> updateVideo currentVideo (\<lambda>el. el\<lparr>paused := True\<rparr>) self"
  have s1: "shownIsActive ?s1"
    using assms by (auto split: option.splits intro: shownIsActive_updateVideo)
  obtain s p where sp: "loadSegmentAtTime (?s1\<lparr>timer := timer_stop (Some off) (timer ?s1)\<rparr>) off FromPause = (s, p)"
    by force
  from shownIsActive_loadSegmentAtTime [OF sp] s1 have "shownIsActive s" by simp
  with sp show ?thesis by (simp add: pause_def Let_def shownIsActive_floating)
qed

lemma shownIsActive_setConfig:
  "shownIsActive self \<Longrightarrow> shownIsActive (setConfig self speed)"
  by (auto simp: setConfig_def Let_def split: option.splits intro!: shownIsActive_updateVideo)

lemma shownIsActive_playSegmentAtIndex:
  "shownIsActive self \<Longrightarrow> shownIsActive (playSegmentAtIndex self index)"
  by (auto simp: playSegmentAtIndex_def playSegmentAtIndex_rest_def shownIsActive_playVideo
      split: prod.splits promise.splits dest: shownIsActive_loadSegment)

lemma shownIsActive_handleSegmentEnd:
  "shownIsActive self \<Longrightarrow> shownIsActive (handleSegmentEnd self index)"
  by (simp add: handleSegmentEnd_def Let_def shownIsActive_playSegmentAtIndex)

lemma shownIsActive_handleLoadedMetadata:
  "shownIsActive self \<Longrightarrow> shownIsActive (handleLoadedMetadata self index)"
  by (simp add: handleLoadedMetadata_def)

lemma shownIsActive_caller_rest:
  "shownIsActive self \<Longrightarrow> shownIsActive (caller_rest c self loaded)"
  by (cases c) (simp_all add: caller_rest_def shownIsActive_playSegmentAtTime_rest)

lemma shownIsActive_resume:
  assumes "shownIsActive self"
  shows "shownIsActive (resume w self)"
proof (cases w)
  case (LoadSegment index off k)
  obtain s r where sr: "loadSegment_show self index off = (s, r)" by force
  from shownIsActive_loadSegment_show [OF sr assms] have s: "shownIsActive s" .
  show ?thesis
  proof (cases k)
    case Constructor
    with LoadSegment sr s show ?thesis by simp
  next
    case PlaySegmentAtIndex
    with LoadSegment sr s show ?thesis
      by (simp add: playSegmentAtIndex_rest_def shownIsActive_playVideo)
  next
    case (LoadSegmentAtTime_previous v n c)
    obtain s' p where sp: "loadSegmentAtTime_rest s v (Some (n + 1)) c = (s', p)" by force
    from shownIsActive_loadSegmentAtTime_rest [OF sp s] have "shownIsActive s'" .
    with LoadSegment sr LoadSegmentAtTime_previous sp show ?thesis
      by (cases p) (simp_all add: shownIsActive_caller_rest shownIsActive_floating)
  next
    case (LoadSegmentAtTime_return c)
    with LoadSegment sr s show ?thesis by (simp add: shownIsActive_caller_rest)
  qed
qed

lemma shownIsActive_step:
  "shownIsActive self \<Longrightarrow> shownIsActive (step self ev)"
  by (cases ev)
     (simp_all add: shownIsActive_play shownIsActive_pause shownIsActive_setConfig
        shownIsActive_handleSegmentEnd shownIsActive_handleLoadedMetadata shownIsActive_resume)

lemma shownIsActive_run:
  "shownIsActive self \<Longrightarrow> shownIsActive (run self events)"
  unfolding run_def
  by (induction events arbitrary: self) (simp_all add: shownIsActive_step)

lemma shownIsActive_constructor: "shownIsActive (constructor atts start)"
proof -
  have "shownIsActive \<lparr>attachments = atts, callbacks = [], currentIndex = None, playbackSpeed = 1,
           startTimestamp = start, timer = newTimer, trackList = mkTrackList atts,
           videos = map (createVideo 1) atts, console = [], unhandledRejections = []\<rparr>"
    by (simp add: shownIsActive_iff createVideo_def)
  moreover obtain s p where sp: "loadSegment \<lparr>attachments = atts, callbacks = [], currentIndex = None, playbackSpeed = 1,
           startTimestamp = start, timer = newTimer, trackList = mkTrackList atts,
           videos = map (createVideo 1) atts, console = [], unhandledRejections = []\<rparr>
          (Some 0) 0 Constructor = (s, p)" by force
  ultimately have "shownIsActive s" using shownIsActive_loadSegment [OF sp] by simp
  with sp show ?thesis by (simp add: constructor_def shownIsActive_floating)
qed

lemma shown_at_most_one:
  assumes "shownIsActive self"
  shows "length (shownIndices self) \<le> 1"
proof -
  have d: "distinct (shownIndices self)" by (simp add: shownIndices_def)
  have "card (int ` set (shownIndices self)) \<le> card (set_option (currentIndex self))"
    using assms by (intro card_mono) (auto simp: shownIsActive_def)
  also have "\<dots> \<le> 1" by (cases "currentIndex self") simp_all
  finally have "card (int ` set (shownIndices self)) \<le> 1" .
  moreover have "card (int ` set (shownIndices self)) = card (set (shownIndices self))"
    by (intro card_image) simp
  ultimately show ?thesis using d by (simp add: distinct_card)
qed

text \<open>
  C8. In every state a player reaches from its construction by calls of \<open>play\<close>,
  \<open>pause\<close> and \<open>setConfig\<close>, by \<open>ended\<close> and \<open>loadedmetadata\<close> events, by the
  passing of time and by timer wake-ups, at most one video is shown, and a shown video is
  the one at the active segment index: the set of shown positions is empty or the
  singleton of the active index. Every video is created hidden.
\<close>

theorem shown_handle_is_active:
  "length (shownIndices (run (constructor atts start) events)) \<le> 1 \<and>
   int ` set (shownIndices (run (constructor atts start) events))
     \<subseteq> set_option (currentIndex (run (constructor atts start) events)) \<and>
   display (createVideo speed segmentData) = DisplayNone"
proof -
  have inv: "shownIsActive (run (constructor atts start) events)"
    by (intro shownIsActive_run shownIsActive_constructor)
  from inv shown_at_most_one [OF inv] show ?thesis
    by (simp add: shownIsActive_def createVideo_def)
qed

theorem shown_handle_is_active_witness:
  "shownIndices (run (constructor exampleSegments 0)
      [Play 0, TimePasses 1000, Ended 0, TimePasses 500, Notify 0]) = [1] \<and>
   currentIndex (run (constructor exampleSegments 0)
      [Play 0, TimePasses 1000, Ended 0, TimePasses 500, Notify 0]) = Some 1"
proof -
  let ?s = "run (constructor exampleSegments 0)
      [Play 0, TimePasses 1000, Ended 0, TimePasses 500, Notify 0]"
  have sh: "shownIndices ?s = [1]" by code_simp
  from shown_handle_is_active [of exampleSegments 0
      "[Play 0, TimePasses 1000, Ended 0, TimePasses 500, Notify 0]"]
  have "int ` set (shownIndices ?s) \<subseteq> set_option (currentIndex ?s)" by blast
  with sh have "currentIndex ?s = Some 1" by (cases "currentIndex ?s") simp_all
  with sh show ?thesis by simp
qed


section \<open>Pausing\<close>

lemma map_updateVideo:
  assumes "\<And>el. g (f el) = g el"
  shows "map g (videos (updateVideo v f self)) = map g (videos self)"
  unfolding updateVideo_def
  by (intro nth_equalityI) (auto simp: nth_update_if assms)

lemma paused_hideVideo:
  "map paused (videos (hideVideo self idx)) = map paused (videos self)"
  by (auto simp: hideVideo_def map_updateVideo split: option.splits)

lemma paused_showVideo:
  "map paused (videos (showVideo self v)) = map paused (videos self)"
  by (auto simp: showVideo_def map_updateVideo split: option.splits)

lemma paused_setVideoTime:
  "map paused (videos (setVideoTime self v t)) = map paused (videos self)"
  by (simp add: setVideoTime_def map_updateVideo)

lemma paused_hidePrevious:
  "map paused (videos (hidePrevious self index)) = map paused (videos self)"
  by (simp add: hidePrevious_def paused_hideVideo)

lemma keepsPlayback_loadSegment_show:
  assumes "loadSegment_show self index off = (s, r)"
  shows "keepsPlayback self s"
proof (cases "0 \<le> index \<and> index < int (length (videos self))")
  case True
  then have v: "0 \<le> index" "index < int (length (videos self))" by simp_all
  from assms show ?thesis
    unfolding loadSegment_show_valid_eq [OF v]
    by (auto simp: keepsPlayback_def paused_setVideoTime paused_showVideo paused_hidePrevious)
next
  case False
  from assms show ?thesis
    unfolding loadSegment_show_invalid_eq [OF False]
    by (auto simp: keepsPlayback_def paused_hidePrevious)
qed

lemma keepsPlayback_refl: "keepsPlayback a a"
  by (simp add: keepsPlayback_def)

lemma keepsPlayback_trans:
  "keepsPlayback a b \<Longrightarrow> keepsPlayback b c \<Longrightarrow> keepsPlayback a c"
  by (simp add: keepsPlayback_def)

lemma keepsPlayback_loadSegment:
  assumes "loadSegment self index off k = (s, p)"
  shows "keepsPlayback self s"
proof -
  have w: "keepsPlayback self (self\<lparr>timer := addNotificationAtTime tgt w (timer self)\<rparr>)" for tgt w
    by (simp add: keepsPlayback_def addNotificationAtTime_def)
  from assms show ?thesis
    by (auto simp: loadSegment_def Let_def keepsPlayback_refl w
        split: option.splits prod.splits if_splits dest: keepsPlayback_loadSegment_show)
qed

lemma keepsPlayback_loadSegmentAtTime_rest:
  "loadSegmentAtTime_rest self off next c = (s, p) \<Longrightarrow> keepsPlayback self s"
  by (auto simp: loadSegmentAtTime_rest_def Let_def keepsPlayback_refl
      split: option.splits prod.splits promise.splits dest: keepsPlayback_loadSegment)

lemma keepsPlayback_loadSegmentAtTime:
  "loadSegmentAtTime self off c = (s, p) \<Longrightarrow> keepsPlayback self s"
  by (auto simp: loadSegmentAtTime_def keepsPlayback_refl
      split: sum.splits option.splits prod.splits promise.splits
      dest!: keepsPlayback_loadSegment keepsPlayback_loadSegmentAtTime_rest
      intro: keepsPlayback_trans)

lemma pause_eq: "pause self off = floating (loadSegmentAtTime (pause_stopped self off) off FromPause)"
  by (simp add: pause_def pause_stopped_def Let_def)

lemma fields_pause_stopped [simp]:
  "length (videos (pause_stopped self off)) = length (videos self)"
  "time (timer (pause_stopped self off)) = off"
  "running (timer (pause_stopped self off)) = False"
  "currentIndex (pause_stopped self off) = currentIndex self"
  "attachments (pause_stopped self off) = attachments self"
  "trackList (pause_stopped self off) = trackList self"
  "startTimestamp (pause_stopped self off) = startTimestamp self"
  "unhandledRejections (pause_stopped self off) = unhandledRejections self"
  by (simp_all add: pause_stopped_def Let_def timer_stop_def split: option.splits)

lemma nth_pause_stopped:
  "i < length (videos self) \<Longrightarrow>
   videos (pause_stopped self off) ! i =
     (if currentIndex self = Some (int i) then (videos self ! i)\<lparr>paused := True\<rparr>
      else videos self ! i)"
  by (auto simp: pause_stopped_def Let_def getVideo_def nth_updateVideo split: option.splits)

lemma fields_floating [simp]:
  "videos (floating (s, p)) = videos s"
  "timer (floating (s, p)) = timer s"
  "currentIndex (floating (s, p)) = currentIndex s"
  by (simp_all add: floating_def split: promise.splits)

lemma pause_freezes:
  "time (timer (pause self off)) = off \<and> \<not> running (timer (pause self off)) \<and>
   getCurrentTime (pause self off) = (if currentIndex (pause self off) = None then 0 else off) \<and>
   length (videos (pause self off)) = length (videos self) \<and>
   (\<forall>i < length (videos self).
      paused (videos (pause self off) ! i) =
        (currentIndex self = Some (int i) \<or> paused (videos self ! i)))"
proof -
  let ?s2 = "pause_stopped self off"
  obtain s p where sp: "loadSegmentAtTime ?s2 off FromPause = (s, p)" by force
  from keepsPlayback_loadSegmentAtTime [OF sp]
  have k: "map paused (videos s) = map paused (videos ?s2)"
    "time (timer s) = off" "\<not> running (timer s)"
    by (simp_all add: keepsPlayback_def)
  have res: "pause self off = floating (s, p)"
    using sp by (simp add: pause_eq)
  from k(1) have len: "length (videos s) = length (videos self)"
    using length_map [of paused "videos s"] by simp
  have pi: "paused (videos s ! i) = (currentIndex self = Some (int i) \<or> paused (videos self ! i))"
    if "i < length (videos self)" for i
  proof -
    from that len have "paused (videos s ! i) = map paused (videos s) ! i" by simp
    also have "\<dots> = paused (videos ?s2 ! i)" using that by (simp add: k(1))
    also have "\<dots> = (currentIndex self = Some (int i) \<or> paused (videos self ! i))"
      using that by (simp add: nth_pause_stopped)
    finally show ?thesis .
  qed
  show ?thesis
    unfolding res getCurrentTime_def getTime_def
    using k(2,3) len pi by (auto split: option.splits)
qed


lemma loadSegment_now:
  assumes "0 \<le> i" "i < int (length (attachments self))"
    and "timestamp (attachments self ! nat i) - startTimestamp self \<le> time (timer self)"
  shows "loadSegment self (Some i) off k =
     (fst (loadSegment_show self i off), Resolved (snd (loadSegment_show self i off)))"
  using assms
  by (simp add: loadSegment_def getSegment_def js_nth_def getTime_def Let_def split: prod.splits)

lemma loadSegment_wait:
  assumes "0 \<le> i" "i < int (length (attachments self))"
    and "time (timer self) < timestamp (attachments self ! nat i) - startTimestamp self"
  shows "loadSegment self (Some i) off k =
     (self\<lparr>timer := addNotificationAtTime (timestamp (attachments self ! nat i) - startTimestamp self)
                        (LoadSegment i off k) (timer self)\<rparr>, Pending)"
  using assms
  by (simp add: loadSegment_def getSegment_def js_nth_def getTime_def Let_def)

lemma getSegmentIndexForTime_found:
  assumes "findSegmentIndex (trackList self) (attachments self) (startTimestamp self + off)
             0 (int (length (trackList self)) - 1) = Inr r"
    and "0 \<le> r" and "r < int (length (attachments self))"
  shows "getSegmentIndexForTime self off =
     Inr \<lparr>previousSegment =
            (if inSegment (attachments self ! nat r) (startTimestamp self + off) then None else Some r),
          segment =
            (if inSegment (attachments self ! nat r) (startTimestamp self + off) then Some r else None)\<rparr>"
  using assms
  by (simp add: getSegmentIndexForTime_def getSegment_def js_nth_def Let_def inSegment_def)

lemma length_mkTrackList: "length (mkTrackList atts) = length atts"
  by (simp add: mkTrackList_def)

lemma loadSegmentAtTime_resolves:
  assumes tl: "trackList s = mkTrackList (attachments s)"
    and len: "length (videos s) = length (attachments s)"
    and srt: "sortedByStart (attachments s)"
    and dur: "\<forall>a \<in> set (attachments s). 0 \<le> duration a"
    and ne: "attachments s \<noteq> []"
    and first: "timestamp (attachments s ! 0) \<le> startTimestamp s + off"
    and now: "time (timer s) = off"
  shows "\<exists>r s' p.
     findSegmentIndex (trackList s) (attachments s) (startTimestamp s + off)
       0 (int (length (attachments s)) - 1) = Inr r \<and>
     0 \<le> r \<and> r < int (length (attachments s)) \<and>
     loadSegmentAtTime s off c = (s', p) \<and> (\<forall>e. p \<noteq> Rejected e) \<and>
     videos s' = videos (fst (loadSegment_show s r
        (if inSegment (attachments s ! nat r) (startTimestamp s + off)
         then startTimestamp s + off - timestamp (attachments s ! nat r)
         else duration (attachments s ! nat r)))) \<and>
     currentIndex s' = Some r \<and> unhandledRejections s' = unhandledRejections s \<and>
     (\<not> inSegment (attachments s ! nat r) (startTimestamp s + off) \<longrightarrow>
        timestamp (attachments s ! nat r) < startTimestamp s + off \<and>
        (\<forall>j. r < j \<and> j < int (length (attachments s)) \<longrightarrow>
             startTimestamp s + off < timestamp (attachments s ! nat j)))"
proof -
  let ?atts = "attachments s"
  let ?n = "int (length ?atts)"
  let ?t = "startTimestamp s + off"
  from ne have n0: "0 \<le> ?n - 1 + 1" "?n - 1 < ?n" by simp_all
  from findSegmentIndex_outcome [OF srt dur, of 0 "?n - 1" ?t]
  obtain r where r: "findSegmentIndex (mkTrackList ?atts) ?atts ?t 0 (?n - 1) = Inr r"
    and o: "lookupOutcome ?atts ?t 0 (?n - 1) r" by auto
  have rn: "r < ?n" using o by (auto simp: lookupOutcome_def)
  have r0: "0 \<le> r"
  proof (rule ccontr)
    assume "\<not> 0 \<le> r"
    with o have "\<forall>j. r < j \<and> j \<le> ?n - 1 \<longrightarrow> ?t < timestamp (?atts ! nat j)"
      by (auto simp: lookupOutcome_def)
    from this [rule_format, of 0] \<open>\<not> 0 \<le> r\<close> ne first show False by simp
  qed
  have look: "findSegmentIndex (trackList s) ?atts ?t 0 (int (length (trackList s)) - 1) = Inr r"
    using r by (simp add: tl length_mkTrackList)
  note found = getSegmentIndexForTime_found [OF look r0 rn]
  from r0 rn len have v: "0 \<le> r" "r < int (length (videos s))" by simp_all
  have seg: "getSegment s (Some r) = Some (?atts ! nat r)"
    using r0 rn by (simp add: getSegment_def js_nth_def)
  show ?thesis
  proof (cases "inSegment (?atts ! nat r) ?t")
    case True
    then have due: "timestamp (?atts ! nat r) - startTimestamp s \<le> time (timer s)"
      by (simp add: inSegment_def now)
    let ?s3 = "fst (loadSegment_show s r (?t - timestamp (?atts ! nat r)))"
    have "loadSegmentAtTime s off c = (?s3, Resolved (Some r))"
      using True
      by (simp add: loadSegmentAtTime_def found loadSegmentAtTime_rest_def seg Let_def
          loadSegment_now [OF r0 rn due] loadSegment_show_valid(1) [OF v])
    with r r0 rn True show ?thesis
      by (simp add: tl loadSegment_show_valid(2,9) [OF v])
  next
    case False
    with o have before: "\<forall>j. 0 \<le> j \<and> j \<le> r \<longrightarrow> timestamp (?atts ! nat j) < ?t"
      and after: "\<forall>j. r < j \<and> j \<le> ?n - 1 \<longrightarrow> ?t < timestamp (?atts ! nat j)"
      by (auto simp: lookupOutcome_def)
    from before [rule_format, of r] r0 have lt: "timestamp (?atts ! nat r) < ?t" by simp
    then have due: "timestamp (?atts ! nat r) - startTimestamp s \<le> time (timer s)"
      by (simp add: now)
    let ?s3 = "fst (loadSegment_show s r (duration (?atts ! nat r)))"
    have f3: "attachments ?s3 = ?atts" "startTimestamp ?s3 = startTimestamp s"
      "time (timer ?s3) = off" "currentIndex ?s3 = Some r"
      "unhandledRejections ?s3 = unhandledRejections s"
      by (simp_all add: loadSegment_show_valid [OF v] now)
    have first_load: "loadSegment s (Some r) (duration (?atts ! nat r))
        (LoadSegmentAtTime_previous off r c) = (?s3, Resolved r)"
      by (simp add: loadSegment_now [OF r0 rn due] loadSegment_show_valid(1) [OF v])
    have "\<exists>s' p. loadSegmentAtTime_rest ?s3 off (Some (r + 1)) c = (s', p) \<and>
        (\<forall>e. p \<noteq> Rejected e) \<and> videos s' = videos ?s3 \<and> currentIndex s' = Some r \<and>
        unhandledRejections s' = unhandledRejections s"
    proof (cases "r + 1 < ?n")
      case True
      with r0 have a: "0 \<le> r + 1" "r + 1 < int (length (attachments ?s3))" by (simp_all add: f3)
      from after [rule_format, of "r + 1"] True
      have "time (timer ?s3) < timestamp (attachments ?s3 ! nat (r + 1)) - startTimestamp ?s3"
        by (simp add: f3)
      note w = loadSegment_wait [OF a this]
      have "getSegment ?s3 (Some (r + 1)) = Some (?atts ! nat (r + 1))"
        using a by (simp add: getSegment_def js_nth_def f3)
      then show ?thesis
        by (simp add: loadSegmentAtTime_rest_def Let_def w f3)
    next
      case False
      then have "getSegment ?s3 (Some (r + 1)) = None"
        by (simp add: getSegment_def js_nth_def f3)
      then show ?thesis
        by (simp add: loadSegmentAtTime_rest_def f3)
    qed
    then obtain s' p where rest: "loadSegmentAtTime_rest ?s3 off (Some (r + 1)) c = (s', p)"
      and p: "\<forall>e. p \<noteq> Rejected e" and vs: "videos s' = videos ?s3"
      and cs: "currentIndex s' = Some r"
      and us: "unhandledRejections s' = unhandledRejections s" by blast
    have "loadSegmentAtTime s off c = (s', p)"
      using False by (simp add: loadSegmentAtTime_def found seg first_load rest)
    moreover have "\<forall>j. r < j \<and> j < ?n \<longrightarrow> ?t < timestamp (?atts ! nat j)"
      using after by simp
    ultimately show ?thesis
      using r r0 rn False p vs cs us lt by (simp add: tl)
  qed
qed


lemma display_cases: "d \<noteq> DisplayBlock \<Longrightarrow> d = DisplayNone"
  by (cases d) simp_all

lemma pause_resolves:
  assumes wf: "wellFormed self" and ne: "attachments self \<noteq> []"
    and first: "timestamp (attachments self ! 0) \<le> startTimestamp self + off"
  shows "\<exists>r. findSegmentIndex (trackList self) (attachments self) (startTimestamp self + off)
                0 (int (length (attachments self)) - 1) = Inr r \<and>
           0 \<le> r \<and> r < int (length (attachments self)) \<and>
           currentIndex (pause self off) = Some r \<and>
           set (shownIndices (pause self off)) = {nat r} \<and>
           getCurrentTime (pause self off) = off \<and>
           unhandledRejections (pause self off) = unhandledRejections self \<and>
           currentTime (videos (pause self off) ! nat r) =
             (if inSegment (attachments self ! nat r) (startTimestamp self + off)
              then real_of_int (startTimestamp self + off - timestamp (attachments self ! nat r)) / 1000
              else real_of_int (duration (attachments self ! nat r)) / 1000) \<and>
           (\<forall>i. Suc i < length (attachments self) \<and>
                timestamp (attachments self ! i) + duration (attachments self ! i)
                  < startTimestamp self + off \<and>
                startTimestamp self + off < timestamp (attachments self ! Suc i) \<longrightarrow>
                r = int i \<and>
                display (videos (pause self off) ! i) = DisplayBlock \<and>
                display (videos (pause self off) ! Suc i) = DisplayNone \<and>
                currentTime (videos (pause self off) ! i) =
                  real_of_int (duration (attachments self ! i)) / 1000)"
proof -
  let ?atts = "attachments self"
  let ?n = "int (length ?atts)"
  let ?t = "startTimestamp self + off"
  let ?s2 = "pause_stopped self off"
  from wf have tl: "trackList self = mkTrackList ?atts"
    and len: "length (videos self) = length ?atts"
    and srt: "sortedByStart ?atts" and nov: "nonOverlapping ?atts"
    and dur: "\<forall>a \<in> set ?atts. 0 \<le> duration a"
    and act: "shownIsActive self"
    by (simp_all add: wellFormed_def list_all_iff)
  have "\<exists>r s' p.
     findSegmentIndex (trackList ?s2) (attachments ?s2) (startTimestamp ?s2 + off)
       0 (int (length (attachments ?s2)) - 1) = Inr r \<and>
     0 \<le> r \<and> r < int (length (attachments ?s2)) \<and>
     loadSegmentAtTime ?s2 off FromPause = (s', p) \<and> (\<forall>e. p \<noteq> Rejected e) \<and>
     videos s' = videos (fst (loadSegment_show ?s2 r
        (if inSegment (attachments ?s2 ! nat r) (startTimestamp ?s2 + off)
         then startTimestamp ?s2 + off - timestamp (attachments ?s2 ! nat r)
         else duration (attachments ?s2 ! nat r)))) \<and>
     currentIndex s' = Some r \<and> unhandledRejections s' = unhandledRejections ?s2 \<and>
     (\<not> inSegment (attachments ?s2 ! nat r) (startTimestamp ?s2 + off) \<longrightarrow>
        timestamp (attachments ?s2 ! nat r) < startTimestamp ?s2 + off \<and>
        (\<forall>j. r < j \<and> j < int (length (attachments ?s2)) \<longrightarrow>
             startTimestamp ?s2 + off < timestamp (attachments ?s2 ! nat j)))"
    by (rule loadSegmentAtTime_resolves) (simp_all add: tl len srt dur ne first)
  then obtain r s' p where
    r: "findSegmentIndex (trackList self) ?atts ?t 0 (?n - 1) = Inr r"
    and r0: "0 \<le> r" and rn: "r < ?n"
    and sp: "loadSegmentAtTime ?s2 off FromPause = (s', p)"
    and p: "\<forall>e. p \<noteq> Rejected e"
    and vs: "videos s' = videos (fst (loadSegment_show ?s2 r
        (if inSegment (?atts ! nat r) ?t then ?t - timestamp (?atts ! nat r)
         else duration (?atts ! nat r))))"
    and cs: "currentIndex s' = Some r"
    and us: "unhandledRejections s' = unhandledRejections self"
    and gap: "\<not> inSegment (?atts ! nat r) ?t \<longrightarrow>
        timestamp (?atts ! nat r) < ?t \<and>
        (\<forall>j. r < j \<and> j < ?n \<longrightarrow> ?t < timestamp (?atts ! nat j))"
    unfolding fields_pause_stopped by blast
  let ?off = "if inSegment (?atts ! nat r) ?t then ?t - timestamp (?atts ! nat r)
         else duration (?atts ! nat r)"
  have res: "pause self off = floating (s', p)" by (simp add: pause_eq sp)
  from p have fl: "floating (s', p) = s'" by (cases p) (simp_all add: floating_def)
  from r0 rn len have v: "0 \<le> r" "r < int (length (videos ?s2))" by simp_all
  have lenv: "length (videos s') = length (videos self)"
    by (simp add: vs loadSegment_show_valid(3) [OF v])
  have nth: "videos s' ! i =
     (if int i = r
      then (videos ?s2 ! i)\<lparr>display := DisplayBlock, currentTime := real_of_int ?off / 1000\<rparr>
      else if int i = r - 1 \<or> currentIndex self = Some (int i)
      then (videos ?s2 ! i)\<lparr>display := DisplayNone\<rparr>
      else videos ?s2 ! i)" if "i < length (videos self)" for i
    using that loadSegment_show_valid_nth [OF v, of i ?off] by (simp add: vs)
  have disp: "(display (videos s' ! i) = DisplayBlock) = (i = nat r)"
    if i: "i < length (videos self)" for i
  proof (cases "int i = r")
    case True
    with nth [OF i] show ?thesis by auto
  next
    case False
    with r0 have ne: "i \<noteq> nat r" by auto
    have "display (videos s' ! i) \<noteq> DisplayBlock"
    proof (cases "int i = r - 1 \<or> currentIndex self = Some (int i)")
      case True
      with False nth [OF i] show ?thesis by simp
    next
      case other: False
      from act i have "display (videos self ! i) = DisplayBlock \<longrightarrow> currentIndex self = Some (int i)"
        by (simp add: shownIsActive_iff)
      with other have "display (videos self ! i) \<noteq> DisplayBlock" by blast
      with False other nth [OF i] i show ?thesis by (simp add: nth_pause_stopped)
    qed
    with ne show ?thesis by simp
  qed
  have shown: "set (shownIndices s') = {nat r}"
    using disp r0 rn len by (auto simp: shownIndices_def lenv)
  have tm: "time (timer (pause self off)) = off" using pause_freezes [of self off] by blast
  have gct: "getCurrentTime (pause self off) = off"
    using tm by (simp add: getCurrentTime_def getTime_def res fl cs)
  have ct: "currentTime (videos s' ! nat r) = real_of_int ?off / 1000"
    using nth [of "nat r"] r0 rn len by simp
  have ingap: "r = int i \<and> display (videos s' ! i) = DisplayBlock \<and>
      display (videos s' ! Suc i) = DisplayNone \<and>
      currentTime (videos s' ! i) = real_of_int (duration (?atts ! i)) / 1000"
    if i: "Suc i < length ?atts"
      and lo: "timestamp (?atts ! i) + duration (?atts ! i) < ?t"
      and hi: "?t < timestamp (?atts ! Suc i)" for i
  proof -
    from i have "?atts ! i \<in> set ?atts" by simp
    with dur have di: "0 \<le> duration (?atts ! i)" by blast
    have nohit: "\<not> inSegment (?atts ! nat r) ?t"
    proof
      assume hit: "inSegment (?atts ! nat r) ?t"
      consider "r < int i" | "r = int i" | "int (Suc i) \<le> r" by fastforce
      then show False
      proof cases
        case 1
        from nonOverlapping_nth [OF nov r0 1] i
        have "timestamp (?atts ! nat r) + duration (?atts ! nat r) \<le> timestamp (?atts ! i)"
          by simp
        with hit lo di show False by (simp add: inSegment_def)
      next
        case 2
        with hit lo show False by (simp add: inSegment_def)
      next
        case 3
        have "0 \<le> int (Suc i)" by simp
        from sortedByStart_nth [OF srt this 3 rn]
        have "timestamp (?atts ! Suc i) \<le> timestamp (?atts ! nat r)" by (simp only: nat_int)
        with hit hi show False by (simp add: inSegment_def)
      qed
    qed
    with gap have lt: "timestamp (?atts ! nat r) < ?t"
      and after: "\<forall>j. r < j \<and> j < ?n \<longrightarrow> ?t < timestamp (?atts ! nat j)" by simp_all
    have ri: "r = int i"
    proof (rule ccontr)
      assume "r \<noteq> int i"
      then consider "r < int i" | "int (Suc i) \<le> r" by fastforce
      then show False
      proof cases
        case 1
        with after [rule_format, of "int i"] i have "?t < timestamp (?atts ! i)" by simp
        with lo di show False by simp
      next
        case 2
        have "0 \<le> int (Suc i)" by simp
        from sortedByStart_nth [OF srt this 2 rn]
        have "timestamp (?atts ! Suc i) \<le> timestamp (?atts ! nat r)" by (simp only: nat_int)
        with lt hi show False by simp
      qed
    qed
    from i len have iv: "i < length (videos self)" "Suc i < length (videos self)" by simp_all
    from disp [OF iv(1)] ri have d1: "display (videos s' ! i) = DisplayBlock" by simp
    from disp [OF iv(2)] ri have "display (videos s' ! Suc i) \<noteq> DisplayBlock" by simp
    then have d2: "display (videos s' ! Suc i) = DisplayNone" by (rule display_cases)
    from ct nohit ri have "currentTime (videos s' ! i) = real_of_int (duration (?atts ! i)) / 1000"
      by simp
    with ri d1 d2 show ?thesis by simp
  qed
  show ?thesis
    unfolding res fl
    using r r0 rn cs shown gct [unfolded res fl] us ct ingap
    by (intro exI [of _ r]) simp
qed

text \<open>Every state that a player over a sorted, non-overlapping segment list reaches is
  well-formed.\<close>

lemma sameData_refl: "sameData a a"
  by (simp add: sameData_def)

lemma sameData_trans: "sameData a b \<Longrightarrow> sameData b c \<Longrightarrow> sameData a c"
  by (simp add: sameData_def)

lemma sameData_playVideo: "sameData self (playVideo self v)"
  by (cases v) (simp_all add: playVideo_def sameData_def)

lemma sameData_loadSegment_show:
  "loadSegment_show self index off = (s, r) \<Longrightarrow> sameData self s"
  by (cases "0 \<le> index \<and> index < int (length (videos self))")
     (auto simp: loadSegment_show_valid_eq loadSegment_show_invalid_eq sameData_def)

lemma sameData_loadSegment:
  "loadSegment self index off k = (s, p) \<Longrightarrow> sameData self s"
  by (auto simp: loadSegment_def Let_def sameData_refl
      split: option.splits prod.splits if_splits dest: sameData_loadSegment_show)
     (simp add: sameData_def)

lemma sameData_loadSegmentAtTime_rest:
  "loadSegmentAtTime_rest self off next c = (s, p) \<Longrightarrow> sameData self s"
  by (auto simp: loadSegmentAtTime_rest_def Let_def sameData_refl
      split: option.splits prod.splits promise.splits dest: sameData_loadSegment)

lemma sameData_loadSegmentAtTime:
  "loadSegmentAtTime self off c = (s, p) \<Longrightarrow> sameData self s"
  by (auto simp: loadSegmentAtTime_def sameData_refl
      split: sum.splits option.splits prod.splits promise.splits
      dest!: sameData_loadSegment sameData_loadSegmentAtTime_rest
      intro: sameData_trans)

lemma sameData_floating: "sameData (fst sp) (floating sp)"
  by (cases sp) (auto simp: floating_def sameData_def split: promise.splits)

lemma sameData_playSegmentAtTime_rest: "sameData self (playSegmentAtTime_rest self loaded)"
  by (cases loaded) (simp_all add: playSegmentAtTime_rest_def sameData_refl sameData_playVideo)

lemma sameData_playSegmentAtTime:
  "playSegmentAtTime self off = (s, p) \<Longrightarrow> sameData self s"
  by (auto simp: playSegmentAtTime_def
      split: prod.splits promise.splits dest!: sameData_loadSegmentAtTime
      intro: sameData_trans [OF _ sameData_playSegmentAtTime_rest])

lemma sameData_play: "sameData self (play self off)"
proof -
  obtain s p where sp: "playSegmentAtTime (self\<lparr>timer := timer_start off (timer self)\<rparr>) off = (s, p)"
    by force
  from sameData_playSegmentAtTime [OF sp] have "sameData self s" by (simp add: sameData_def)
  with sameData_floating [of "(s, p)"] sp show ?thesis
    by (simp add: play_def sameData_def)
qed

lemma sameData_pause: "sameData self (pause self off)"
proof -
  obtain s p where sp: "loadSegmentAtTime (pause_stopped self off) off FromPause = (s, p)"
    by force
  from sameData_loadSegmentAtTime [OF sp] have "sameData self s" by (simp add: sameData_def)
  with sameData_floating [of "(s, p)"] sp show ?thesis
    by (simp add: pause_eq sameData_def)
qed

lemma sameData_setConfig: "sameData self (setConfig self speed)"
  by (auto simp: setConfig_def Let_def sameData_def split: option.splits)

lemma sameData_playSegmentAtIndex: "sameData self (playSegmentAtIndex self index)"
  by (auto simp: playSegmentAtIndex_def playSegmentAtIndex_rest_def sameData_refl
      split: prod.splits promise.splits dest!: sameData_loadSegment
      intro: sameData_trans [OF _ sameData_playVideo])

lemma sameData_handleSegmentEnd: "sameData self (handleSegmentEnd self index)"
  by (simp add: handleSegmentEnd_def Let_def sameData_playSegmentAtIndex) (simp add: sameData_def)

lemma sameData_handleLoadedMetadata: "sameData self (handleLoadedMetadata self index)"
  by (simp add: handleLoadedMetadata_def sameData_def)

lemma sameData_caller_rest: "sameData self (caller_rest c self loaded)"
  by (cases c) (simp_all add: caller_rest_def sameData_refl sameData_playSegmentAtTime_rest)

lemma sameData_resume: "sameData self (resume w self)"
proof (cases w)
  case (LoadSegment index off k)
  obtain s r where sr: "loadSegment_show self index off = (s, r)" by force
  note s = sameData_loadSegment_show [OF sr]
  show ?thesis
  proof (cases k)
    case Constructor
    with LoadSegment sr s show ?thesis by simp
  next
    case PlaySegmentAtIndex
    with LoadSegment sr sameData_trans [OF s sameData_playVideo] show ?thesis
      by (simp add: playSegmentAtIndex_rest_def)
  next
    case (LoadSegmentAtTime_previous v n c)
    obtain s' p where sp: "loadSegmentAtTime_rest s v (Some (n + 1)) c = (s', p)" by force
    note s' = sameData_trans [OF s sameData_loadSegmentAtTime_rest [OF sp]]
    have fr: "sameData self (floating (s', Rejected e :: unit promise))" for e
      using s' by (simp add: floating_def sameData_def)
    from sameData_trans [OF s' sameData_caller_rest] fr
      LoadSegment sr LoadSegmentAtTime_previous sp s'
    show ?thesis by (cases p) simp_all
  next
    case (LoadSegmentAtTime_return c)
    with LoadSegment sr sameData_trans [OF s sameData_caller_rest] show ?thesis by simp
  qed
qed

lemma sameData_step: "sameData self (step self ev)"
proof (cases ev)
  case (Notify n)
  have "sameData self (self\<lparr>timer := removeNotification n (timer self)\<rparr>)"
    by (simp add: sameData_def)
  from sameData_trans [OF this sameData_resume] Notify show ?thesis
    by (simp add: sameData_refl)
next
  case (TimePasses ms)
  then show ?thesis by (simp add: sameData_def)
qed (simp_all add: sameData_play sameData_pause sameData_setConfig sameData_handleSegmentEnd
       sameData_handleLoadedMetadata sameData_refl)

lemma sameData_run: "sameData self (run self events)"
  unfolding run_def
proof (induction events arbitrary: self)
  case Nil
  show ?case by (simp add: sameData_refl)
next
  case (Cons ev events)
  from sameData_trans [OF sameData_step Cons] show ?case by simp
qed

lemma constructor_data:
  "attachments (constructor atts start) = atts"
  "trackList (constructor atts start) = mkTrackList atts"
  "length (videos (constructor atts start)) = length atts"
proof -
  let ?init = "\<lparr>attachments = atts, callbacks = [], currentIndex = None, playbackSpeed = 1,
           startTimestamp = start, timer = newTimer, trackList = mkTrackList atts,
           videos = map (createVideo 1) atts, console = [], unhandledRejections = []\<rparr>"
  obtain s p where sp: "loadSegment ?init (Some 0) 0 Constructor = (s, p)" by force
  from sameData_loadSegment [OF sp] sameData_floating [of "(s, p)"]
  have "sameData ?init (floating (s, p))" by (simp add: sameData_def)
  with sp show "attachments (constructor atts start) = atts"
    "trackList (constructor atts start) = mkTrackList atts"
    "length (videos (constructor atts start)) = length atts"
    by (simp_all add: constructor_def sameData_def)
qed

lemma wellFormed_reachable:
  assumes "sortedByStart atts" and "nonOverlapping atts"
    and "list_all (\<lambda>a. 0 \<le> duration a) atts"
  shows "wellFormed (run (constructor atts start) events)"
proof -
  from sameData_run [of "constructor atts start" events]
  have "attachments (run (constructor atts start) events) = atts"
    "trackList (run (constructor atts start) events) = mkTrackList atts"
    "length (videos (run (constructor atts start) events)) = length atts"
    by (simp_all add: sameData_def constructor_data)
  moreover have "shownIsActive (run (constructor atts start) events)"
    by (intro shownIsActive_run shownIsActive_constructor)
  ultimately show ?thesis using assms by (simp add: wellFormed_def)
qed

text \<open>
  C4, as the claim states it, fails: while no segment has been activated
  \<open>getCurrentTime()\<close> returns 0, whatever the timer holds. With a first segment that
  starts at 500, \<open>pause(200)\<close> freezes the timer at 200, \<open>getCurrentTime()\<close> returns
  0, and no handle is displayed; with no segment at all, \<open>pause(500)\<close> freezes the
  timer at 500 and \<open>getCurrentTime()\<close> returns 0.
\<close>

theorem pause_counterexample:
  "time (timer (pause (constructor delayedSegments 0) 200)) = 200 \<and>
   getCurrentTime (pause (constructor delayedSegments 0) 200) = 0 \<and>
   shownIndices (pause (constructor delayedSegments 0) 200) = [] \<and>
   time (timer (pause (constructor [] 0) 500)) = 500 \<and>
   getCurrentTime (pause (constructor [] 0) 500) = 0"
  by code_simp

text \<open>
  C4, amended. After \<open>pause(videoOffsetMs)\<close> the Virtual Timer is stopped with its time
  at \<open>videoOffsetMs\<close>; the handle at the active index is paused and no handle is started;
  \<open>getCurrentTime()\<close> returns \<open>videoOffsetMs\<close> when a segment is active after the
  call, and 0 when none has ever been activated. On a player over a sorted,
  non-overlapping segment list, when the origin plus \<open>videoOffsetMs\<close> is not before the
  first segment's start, the displayed handle is re-resolved without an error: the
  segment \<open>r\<close> that the lookup returns becomes the active and the only shown handle, its
  seek position (in seconds) is the offset into the segment when it contains the
  timestamp and its full duration otherwise, and \<open>getCurrentTime()\<close> returns
  \<open>videoOffsetMs\<close>. In particular, pausing inside the gap between segments \<open>i\<close> and
  \<open>i + 1\<close> leaves the handle of segment \<open>i\<close> displayed at its full duration, and the
  handle of segment \<open>i + 1\<close> hidden.
\<close>

theorem pause_freezes_and_resolves:
  "time (timer (pause self videoOffsetMs)) = videoOffsetMs \<and>
   \<not> running (timer (pause self videoOffsetMs)) \<and>
   getCurrentTime (pause self videoOffsetMs) =
     (if currentIndex (pause self videoOffsetMs) = None then 0 else videoOffsetMs) \<and>
   length (videos (pause self videoOffsetMs)) = length (videos self) \<and>
   (\<forall>i < length (videos self).
      paused (videos (pause self videoOffsetMs) ! i) =
        (currentIndex self = Some (int i) \<or> paused (videos self ! i))) \<and>
   (wellFormed self \<and> attachments self \<noteq> [] \<and>
    timestamp (attachments self ! 0) \<le> startTimestamp self + videoOffsetMs \<longrightarrow>
      (\<exists>r. findSegmentIndex (trackList self) (attachments self)
                (startTimestamp self + videoOffsetMs)
                0 (int (length (attachments self)) - 1) = Inr r \<and>
           0 \<le> r \<and> r < int (length (attachments self)) \<and>
           currentIndex (pause self videoOffsetMs) = Some r \<and>
           set (shownIndices (pause self videoOffsetMs)) = {nat r} \<and>
           getCurrentTime (pause self videoOffsetMs) = videoOffsetMs \<and>
           unhandledRejections (pause self videoOffsetMs) = unhandledRejections self \<and>
           currentTime (videos (pause self videoOffsetMs) ! nat r) =
             (if inSegment (attachments self ! nat r) (startTimestamp self + videoOffsetMs)
              then real_of_int (startTimestamp self + videoOffsetMs
                                  - timestamp (attachments self ! nat r)) / 1000
              else real_of_int (duration (attachments self ! nat r)) / 1000) \<and>
           (\<forall>i. Suc i < length (attachments self) \<and>
                timestamp (attachments self ! i) + duration (attachments self ! i)
                  < startTimestamp self + videoOffsetMs \<and>
                startTimestamp self + videoOffsetMs < timestamp (attachments self ! Suc i) \<longrightarrow>
                r = int i \<and>
                display (videos (pause self videoOffsetMs) ! i) = DisplayBlock \<and>
                display (videos (pause self videoOffsetMs) ! Suc i) = DisplayNone \<and>
                currentTime (videos (pause self videoOffsetMs) ! i) =
                  real_of_int (duration (attachments self ! i)) / 1000)))"
proof (rule conjI [OF _ conjI [OF _ conjI [OF _ conjI [OF _ conjI]]]])
  note a = pause_freezes [of self videoOffsetMs]
  from a show "time (timer (pause self videoOffsetMs)) = videoOffsetMs" by (rule conjunct1)
  from a show "\<not> running (timer (pause self videoOffsetMs))" by blast
  from a show "getCurrentTime (pause self videoOffsetMs) =
     (if currentIndex (pause self videoOffsetMs) = None then 0 else videoOffsetMs)" by blast
  from a show "length (videos (pause self videoOffsetMs)) = length (videos self)" by blast
  from a show "\<forall>i < length (videos self).
      paused (videos (pause self videoOffsetMs) ! i) =
        (currentIndex self = Some (int i) \<or> paused (videos self ! i))" by blast
next
  show "wellFormed self \<and> attachments self \<noteq> [] \<and>
    timestamp (attachments self ! 0) \<le> startTimestamp self + videoOffsetMs \<longrightarrow>
      (\<exists>r. findSegmentIndex (trackList self) (attachments self)
                (startTimestamp self + videoOffsetMs)
                0 (int (length (attachments self)) - 1) = Inr r \<and>
           0 \<le> r \<and> r < int (length (attachments self)) \<and>
           currentIndex (pause self videoOffsetMs) = Some r \<and>
           set (shownIndices (pause self videoOffsetMs)) = {nat r} \<and>
           getCurrentTime (pause self videoOffsetMs) = videoOffsetMs \<and>
           unhandledRejections (pause self videoOffsetMs) = unhandledRejections self \<and>
           currentTime (videos (pause self videoOffsetMs) ! nat r) =
             (if inSegment (attachments self ! nat r) (startTimestamp self + videoOffsetMs)
              then real_of_int (startTimestamp self + videoOffsetMs
                                  - timestamp (attachments self ! nat r)) / 1000
              else real_of_int (duration (attachments self ! nat r)) / 1000) \<and>
           (\<forall>i. Suc i < length (attachments self) \<and>
                timestamp (attachments self ! i) + duration (attachments self ! i)
                  < startTimestamp self + videoOffsetMs \<and>
                startTimestamp self + videoOffsetMs < timestamp (attachments self ! Suc i) \<longrightarrow>
                r = int i \<and>
                display (videos (pause self videoOffsetMs) ! i) = DisplayBlock \<and>
                display (videos (pause self videoOffsetMs) ! Suc i) = DisplayNone \<and>
                currentTime (videos (pause self videoOffsetMs) ! i) =
                  real_of_int (duration (attachments self ! i)) / 1000))"
    by (intro impI, elim conjE) (rule pause_resolves)
qed

theorem pause_freezes_and_resolves_witness:
  "getCurrentTime (pause (run (constructor exampleSegments 0)
      [Play 0, TimePasses 1000, Ended 0, TimePasses 200]) 1200) = 1200 \<and>
   display (videos (pause (run (constructor exampleSegments 0)
      [Play 0, TimePasses 1000, Ended 0, TimePasses 200]) 1200) ! 0) = DisplayBlock \<and>
   display (videos (pause (run (constructor exampleSegments 0)
      [Play 0, TimePasses 1000, Ended 0, TimePasses 200]) 1200) ! Suc 0) = DisplayNone \<and>
   currentTime (videos (pause (run (constructor exampleSegments 0)
      [Play 0, TimePasses 1000, Ended 0, TimePasses 200]) 1200) ! 0) = 1 \<and>
   paused (videos (pause (run (constructor exampleSegments 0)
      [Play 0, TimePasses 1000, Ended 0, TimePasses 200]) 1200) ! 0)"
proof -
  let ?s = "run (constructor exampleSegments 0) [Play 0, TimePasses 1000, Ended 0, TimePasses 200]"
  have wf: "wellFormed ?s" by code_simp
  have ne: "attachments ?s \<noteq> []" by code_simp
  have first: "timestamp (attachments ?s ! 0) \<le> startTimestamp ?s + 1200" by code_simp
  have g: "Suc 0 < length (attachments ?s) \<and>
      timestamp (attachments ?s ! 0) + duration (attachments ?s ! 0) < startTimestamp ?s + 1200 \<and>
      startTimestamp ?s + 1200 < timestamp (attachments ?s ! Suc 0)" by code_simp
  have d: "real_of_int (duration (attachments ?s ! 0)) / 1000 = 1" by code_simp
  have v: "0 < length (videos ?s)" by code_simp
  have c: "currentIndex ?s = Some (int 0)" by code_simp
  note th = pause_freezes_and_resolves [of ?s 1200]
  from th wf ne first obtain r where
    t: "getCurrentTime (pause ?s 1200) = 1200"
    and gap: "\<forall>i. Suc i < length (attachments ?s) \<and>
         timestamp (attachments ?s ! i) + duration (attachments ?s ! i) < startTimestamp ?s + 1200 \<and>
         startTimestamp ?s + 1200 < timestamp (attachments ?s ! Suc i) \<longrightarrow>
         r = int i \<and>
         display (videos (pause ?s 1200) ! i) = DisplayBlock \<and>
         display (videos (pause ?s 1200) ! Suc i) = DisplayNone \<and>
         currentTime (videos (pause ?s 1200) ! i) = real_of_int (duration (attachments ?s ! i)) / 1000"
    by blast
  from th have "\<forall>i < length (videos ?s).
      paused (videos (pause ?s 1200) ! i) = (currentIndex ?s = Some (int i) \<or> paused (videos ?s ! i))"
    by blast
  from this [rule_format, OF v] c have p: "paused (videos (pause ?s 1200) ! 0)" by blast
  from gap [rule_format, OF g] d t p show ?thesis by simp
qed

end
